theory Spec2Isabelle
  imports Main "HOL-Library.Product_Lexorder" "HOL-Library.List_Lexorder"
begin

section \<open>Numeric primitives\<close>

text \<open>
  JavaScript numbers hold every integer used here exactly, so numbers are modelled as
  unbounded \<open>int\<close>; the 32-bit range is a predicate, as \<open>isInt32\<close> is in the source.
\<close>

definition INT32_BOTTOM :: int where
  "INT32_BOTTOM = - 2147483648"

definition INT32_TOP :: int where
  "INT32_TOP = 2147483647"

text \<open>
  Modelled from the spec: \<open>isInt32\<close> (module int32 is not among the sources);
  the tuple fields are "in the signed 32-bit range".
\<close>

definition isInt32 :: "int \<Rightarrow> bool" where
  "isInt32 n = (INT32_BOTTOM \<le> n \<and> n \<le> INT32_TOP)"

section \<open>Identifier tuples and identifiers\<close>

text \<open>
  Modelled from the spec: the class \<open>IdentifierTuple\<close> (only its tests are among
  the sources). A tuple is \<open>(random, replicaNumber, clock, offset)\<close>, ordered
  lexicographically on these four fields.
\<close>

datatype IdentifierTuple =
  IdentifierTuple (random: int) (replicaNumber: int) (clock: int) (offset: int)

datatype Ordering = Less | Equal | Greater

definition asArray :: "IdentifierTuple \<Rightarrow> int \<times> int \<times> int \<times> int" where
  "asArray t = (random t, replicaNumber t, clock t, offset t)"

instantiation IdentifierTuple :: linorder
begin

definition less_eq_IdentifierTuple :: "IdentifierTuple \<Rightarrow> IdentifierTuple \<Rightarrow> bool" where
  "less_eq_IdentifierTuple a b = (asArray a \<le> asArray b)"

definition less_IdentifierTuple :: "IdentifierTuple \<Rightarrow> IdentifierTuple \<Rightarrow> bool" where
  "less_IdentifierTuple a b = (asArray a < asArray b)"

instance
proof
  fix x y z :: IdentifierTuple
  show "(x < y) = (x \<le> y \<and> \<not> y \<le> x)"
    unfolding less_IdentifierTuple_def less_eq_IdentifierTuple_def by (rule less_le_not_le)
  show "x \<le> x"
    unfolding less_eq_IdentifierTuple_def by simp
  show "x \<le> y \<Longrightarrow> y \<le> z \<Longrightarrow> x \<le> z"
    unfolding less_eq_IdentifierTuple_def by (rule order_trans)
  show "x \<le> y \<Longrightarrow> y \<le> x \<Longrightarrow> x = y"
    unfolding less_eq_IdentifierTuple_def asArray_def
    by (cases x, cases y) (auto simp: less_eq_prod_def)
  show "x \<le> y \<or> y \<le> x"
    unfolding less_eq_IdentifierTuple_def by (rule linear)
qed

end

definition compareTo_tuple :: "IdentifierTuple \<Rightarrow> IdentifierTuple \<Rightarrow> Ordering" where
  "compareTo_tuple a b = (if a < b then Less else if a = b then Equal else Greater)"

definition equalsBase_tuple :: "IdentifierTuple \<Rightarrow> IdentifierTuple \<Rightarrow> bool" where
  "equalsBase_tuple a b =
     (random a = random b \<and> replicaNumber a = replicaNumber b \<and> clock a = clock b)"

definition fromBase_tuple :: "IdentifierTuple \<Rightarrow> int \<Rightarrow> IdentifierTuple" where
  "fromBase_tuple t off = IdentifierTuple (random t) (replicaNumber t) (clock t) off"

definition MIN_TUPLE :: IdentifierTuple where
  "MIN_TUPLE = IdentifierTuple INT32_BOTTOM 0 0 0"

definition MAX_TUPLE :: IdentifierTuple where
  "MAX_TUPLE = IdentifierTuple INT32_TOP 0 0 0"

text \<open>
  Modelled from the spec: the class \<open>Identifier\<close> (module identifier is not among
  the sources). An identifier is the sequence of its tuples, non-empty when well formed;
  the order is lexicographic on the tuple sequence, a proper prefix being smaller, which
  is the order of \<open>List_Lexorder\<close>.
\<close>

type_synonym Identifier = "IdentifierTuple list"

definition compareTo :: "Identifier \<Rightarrow> Identifier \<Rightarrow> Ordering" where
  "compareTo a b = (if a < b then Less else if a = b then Equal else Greater)"

definition lastOffset :: "Identifier \<Rightarrow> int" where
  "lastOffset a = offset (last a)"

definition isPrefix :: "Identifier \<Rightarrow> Identifier \<Rightarrow> bool" where
  "isPrefix a b = (length a \<le> length b \<and> take (length a) b = a)"

definition getTail :: "Identifier \<Rightarrow> nat \<Rightarrow> Identifier" where
  "getTail a k = drop k a"

definition concat_id :: "Identifier \<Rightarrow> Identifier \<Rightarrow> Identifier" where
  "concat_id a b = a @ b"

definition fromBase :: "Identifier \<Rightarrow> int \<Rightarrow> Identifier" where
  "fromBase a off = butlast a @ [fromBase_tuple (last a) off]"

definition equalsBase :: "Identifier \<Rightarrow> Identifier \<Rightarrow> bool" where
  "equalsBase a b =
     (length a = length b \<and> butlast a = butlast b \<and> equalsBase_tuple (last a) (last b))"

text \<open>
  Modelled from the spec: \<open>createAtPosition\<close> (its body in module idfactory is not
  among the sources): the single-tuple identifier \<open>(random, replicaNumber, clock, offset)\<close>.
\<close>

definition createAtPosition :: "int \<Rightarrow> int \<Rightarrow> int \<Rightarrow> int \<Rightarrow> Identifier" where
  "createAtPosition rep clk rnd off = [IdentifierTuple rnd rep clk off]"

section \<open>Identifier factory\<close>

text \<open>
  The generator \<open>infiniteSequence(values, defaultValue)\<close> yields the values and then
  the default value for ever: its state is the list of values still to come, \<open>seqValue\<close>
  is the value the next call of \<open>next()\<close> yields and \<open>tl\<close> is the state after it.
\<close>

definition seqValue :: "'a list \<Rightarrow> 'a \<Rightarrow> 'a" where
  "seqValue values defaultValue = (case values of [] \<Rightarrow> defaultValue | v # _ \<Rightarrow> v)"

definition tuplesOf :: "Identifier option \<Rightarrow> IdentifierTuple list" where
  "tuplesOf i = (case i of None \<Rightarrow> [] | Some a \<Rightarrow> a)"

text \<open>
  The body of \<open>createBetweenPosition\<close> from the first \<open>next()\<close> on: the while loop
  pushes \<open>tuple1\<close> as long as no integer fits between the two random fields, then the
  fresh tuple is pushed. \<open>randomInt32\<close> (module int32) is not among the sources: the
  draw is the parameter \<open>rnd\<close>, called as \<open>rnd (tuple1.random + 1) tuple2.random\<close>.
\<close>

function betweenTuples ::
  "(int \<Rightarrow> int \<Rightarrow> int) \<Rightarrow> int \<Rightarrow> int \<Rightarrow> IdentifierTuple list \<Rightarrow> IdentifierTuple list
     \<Rightarrow> IdentifierTuple list" where
  "betweenTuples rnd rep clk seq1 seq2 =
     (if random (seqValue seq2 MAX_TUPLE) - random (seqValue seq1 MIN_TUPLE) < 2
      then seqValue seq1 MIN_TUPLE # betweenTuples rnd rep clk (tl seq1) (tl seq2)
      else [IdentifierTuple
              (rnd (random (seqValue seq1 MIN_TUPLE) + 1) (random (seqValue seq2 MAX_TUPLE)))
              rep clk 0])"
  by pat_completeness auto
termination
proof (relation "measure (\<lambda>(rnd, rep, clk, seq1, seq2). length seq1 + length seq2)")
  show "wf (measure (\<lambda>(rnd, rep, clk, seq1, seq2). length seq1 + length seq2))"
    by simp
next
  fix rnd :: "int \<Rightarrow> int \<Rightarrow> int" and rep clk :: int and seq1 seq2 :: "IdentifierTuple list"
  assume gap: "random (seqValue seq2 MAX_TUPLE) - random (seqValue seq1 MIN_TUPLE) < 2"
  have "seq1 \<noteq> [] \<or> seq2 \<noteq> []"
  proof (rule ccontr)
    assume "\<not> (seq1 \<noteq> [] \<or> seq2 \<noteq> [])"
    then have "seq1 = []" and "seq2 = []" by simp_all
    with gap show False
      by (simp add: seqValue_def MAX_TUPLE_def MIN_TUPLE_def INT32_TOP_def INT32_BOTTOM_def)
  qed
  then show "((rnd, rep, clk, tl seq1, tl seq2), (rnd, rep, clk, seq1, seq2))
      \<in> measure (\<lambda>(rnd, rep, clk, seq1, seq2). length seq1 + length seq2)"
    by (cases seq1; cases seq2) simp_all
qed

definition createBetweenPosition ::
  "(int \<Rightarrow> int \<Rightarrow> int) \<Rightarrow> Identifier option \<Rightarrow> Identifier option \<Rightarrow> int \<Rightarrow> int
     \<Rightarrow> Identifier" where
  "createBetweenPosition rnd id1 id2 rep clk =
     betweenTuples rnd rep clk (tuplesOf id1) (tuplesOf id2)"

text \<open>
  What the source's comment asks of a draw: \<open>randomInt32 l u\<close> lies in \<open>[l, u)\<close>.
\<close>

definition drawsInRange :: "(int \<Rightarrow> int \<Rightarrow> int) \<Rightarrow> bool" where
  "drawsInRange rnd = (\<forall>l u. l < u \<longrightarrow> l \<le> rnd l u \<and> rnd l u < u)"

text \<open>The tuple at depth \<open>i\<close> of a padded sequence, in the spec's words.\<close>

definition paddedAt :: "IdentifierTuple list \<Rightarrow> IdentifierTuple \<Rightarrow> nat \<Rightarrow> IdentifierTuple" where
  "paddedAt ts d i = (if i < length ts then ts ! i else d)"

definition carries :: "int \<Rightarrow> int \<Rightarrow> IdentifierTuple \<Rightarrow> bool" where
  "carries rep clk t = (replicaNumber t = rep \<and> clock t = clk)"

declare betweenTuples.simps [simp del]

text \<open>
  The bounds as the source's assertion reads them: a null bound is the virtual bound
  (minus or plus infinity), so every identifier lies above a null \<open>id1\<close> and below a
  null \<open>id2\<close>.
\<close>

definition orderedBounds :: "Identifier option \<Rightarrow> Identifier option \<Rightarrow> bool" where
  "orderedBounds id1 id2 =
     (case id1 of None \<Rightarrow> True
      | Some a \<Rightarrow> (case id2 of None \<Rightarrow> True | Some b \<Rightarrow> compareTo a b = Less))"



text \<open>
  An upper bound on which \<open>MIN_TUPLE\<close> works as the padding of \<open>id1\<close>: it is not
  empty, none of its tuples lies below \<open>MIN_TUPLE\<close> and it does not end with
  \<open>MIN_TUPLE\<close>.
\<close>

definition paddingBelow :: "Identifier option \<Rightarrow> bool" where
  "paddingBelow id2 =
     (case id2 of None \<Rightarrow> True
      | Some b \<Rightarrow> b \<noteq> [] \<and> list_all (\<lambda>t. MIN_TUPLE \<le> t) b \<and> last b \<noteq> MIN_TUPLE)"

section \<open>Identifier intervals and blocks\<close>

text \<open>
  Modelled from the spec: the class \<open>IdentifierInterval\<close> (module identifierinterval
  is not among the sources). An interval is \<open>(base, begin, end)\<close>: the identifiers that
  share the base, that is all of the tuples but the offset of the last one, with the last
  offset running from \<open>begin\<close> to \<open>end\<close>; \<open>length = end - begin + 1\<close>. The field
  \<open>base\<close> holds the tuples, the offset of its last tuple being of no account.
\<close>

record IdentifierInterval =
  base :: Identifier
  ibegin :: int
  iend :: int

definition idBegin :: "IdentifierInterval \<Rightarrow> Identifier" where
  "idBegin iv = fromBase (base iv) (ibegin iv)"

definition idEnd :: "IdentifierInterval \<Rightarrow> Identifier" where
  "idEnd iv = fromBase (base iv) (iend iv)"

definition length_iv :: "IdentifierInterval \<Rightarrow> int" where
  "length_iv iv = iend iv - ibegin iv + 1"

definition toIds :: "IdentifierInterval \<Rightarrow> Identifier list" where
  "toIds iv = map (fromBase (base iv)) [ibegin iv..iend iv]"

text \<open>
  Modelled from the spec: \<open>union(pos, pos2)\<close> is the smallest contiguous interval that
  contains the interval and the offsets \<open>pos..pos2\<close>.
\<close>

definition union_iv :: "IdentifierInterval \<Rightarrow> int \<Rightarrow> int \<Rightarrow> IdentifierInterval" where
  "union_iv iv pos pos2 = iv\<lparr>ibegin := min (ibegin iv) pos, iend := max (iend iv) pos2\<rparr>"

record LogootSBlock =
  idInterval :: IdentifierInterval
  nbElement :: int

text \<open>
  The constructor; its \<open>console.assert\<close> logs and goes on, so what it asserts is a
  precondition of the caller, \<open>constructorPre\<close>.
\<close>

definition newLogootSBlock :: "IdentifierInterval \<Rightarrow> int \<Rightarrow> LogootSBlock" where
  "newLogootSBlock iv nbElt = \<lparr>idInterval = iv, nbElement = nbElt\<rparr>"

definition constructorPre :: "int \<Rightarrow> bool" where
  "constructorPre nbElt = (isInt32 nbElt \<and> nbElt \<ge> 0)"

definition addBlock :: "LogootSBlock \<Rightarrow> int \<Rightarrow> int \<Rightarrow> LogootSBlock" where
  "addBlock b pos len =
     b\<lparr>nbElement := nbElement b + len,
       idInterval := union_iv (idInterval b) pos (pos + len - 1)\<rparr>"

definition delBlock :: "LogootSBlock \<Rightarrow> int \<Rightarrow> LogootSBlock" where
  "delBlock b nbElt = b\<lparr>nbElement := nbElement b - nbElt\<rparr>"

datatype BlockCall = AddBlock int int | DelBlock int

fun call :: "LogootSBlock \<Rightarrow> BlockCall \<Rightarrow> LogootSBlock" where
  "call b (AddBlock pos len) = addBlock b pos len"
| "call b (DelBlock nbElt) = delBlock b nbElt"

text \<open>
  The preconditions of a call: the assertion of the method and, for \<open>delBlock\<close>, the
  caller's duty not to delete more elements than the block holds.
\<close>

fun callPre :: "LogootSBlock \<Rightarrow> BlockCall \<Rightarrow> bool" where
  "callPre b (AddBlock pos len) = (isInt32 len \<and> len > 0)"
| "callPre b (DelBlock nbElt) = (isInt32 nbElt \<and> nbElt > 0 \<and> nbElt \<le> nbElement b)"

fun calls :: "LogootSBlock \<Rightarrow> BlockCall list \<Rightarrow> LogootSBlock" where
  "calls b [] = b"
| "calls b (c # cs) = calls (call b c) cs"

fun callsPre :: "LogootSBlock \<Rightarrow> BlockCall list \<Rightarrow> bool" where
  "callsPre b [] = True"
| "callsPre b (c # cs) = (callPre b c \<and> callsPre (call b c) cs)"

section \<open>Renaming map\<close>

record RenamingMap =
  mapReplicaNumber :: int
  mapClock :: int
  renamedIdIntervals :: "IdentifierInterval list"
  indexes :: "int list"
  maxOffset :: int

text \<open>
  The constructor's \<open>forEach\<close>: \<open>pushIndexes index ivs\<close> is the list of the indexes
  pushed for \<open>ivs\<close> when the running \<open>index\<close> starts as given, and \<open>lastIndex\<close> is
  the value of \<open>index\<close> after the loop.
\<close>

fun pushIndexes :: "int \<Rightarrow> IdentifierInterval list \<Rightarrow> int list" where
  "pushIndexes index [] = []"
| "pushIndexes index (iv # ivs) = index # pushIndexes (index + length_iv iv) ivs"

fun lastIndex :: "int \<Rightarrow> IdentifierInterval list \<Rightarrow> int" where
  "lastIndex index [] = index"
| "lastIndex index (iv # ivs) = lastIndex (index + length_iv iv) ivs"

definition newRenamingMap :: "int \<Rightarrow> int \<Rightarrow> IdentifierInterval list \<Rightarrow> RenamingMap" where
  "newRenamingMap rep clk ivs =
     \<lparr>mapReplicaNumber = rep, mapClock = clk, renamedIdIntervals = ivs,
      indexes = pushIndexes 0 ivs, maxOffset = lastIndex 0 ivs - 1\<rparr>"

text \<open>
  The getters read the first and the last interval and the first tuple of \<open>firstId\<close>:
  on an empty list of intervals the source throws, and the functions below that call them
  answer \<open>None\<close> there before they read.
\<close>

definition firstId :: "RenamingMap \<Rightarrow> Identifier" where
  "firstId m = idBegin (hd (renamedIdIntervals m))"

definition lastId :: "RenamingMap \<Rightarrow> Identifier" where
  "lastId m = idEnd (last (renamedIdIntervals m))"

definition newRandom :: "RenamingMap \<Rightarrow> int" where
  "newRandom m = random (hd (firstId m))"

definition newFirstId :: "RenamingMap \<Rightarrow> Identifier" where
  "newFirstId m = createAtPosition (mapReplicaNumber m) (mapClock m) (newRandom m) 0"

definition newLastId :: "RenamingMap \<Rightarrow> Identifier" where
  "newLastId m =
     createAtPosition (mapReplicaNumber m) (mapClock m) (newRandom m) (maxOffset m)"

text \<open>The \<open>flatMap\<close> of \<open>renameIds\<close>: the renamed identifiers in interval order.\<close>

definition renamedIds :: "RenamingMap \<Rightarrow> Identifier list" where
  "renamedIds m = concat (map toIds (renamedIdIntervals m))"

definition renameIdLessThanFirstId :: "RenamingMap \<Rightarrow> Identifier \<Rightarrow> Identifier" where
  "renameIdLessThanFirstId m i =
     (let closestPredecessorOfFirstId = fromBase (firstId m) (lastOffset (firstId m) - 1);
          closestPredecessorOfNewFirstId =
            fromBase (newFirstId m) (lastOffset (newFirstId m) - 1)
      in if length closestPredecessorOfFirstId + 1 < length i
            \<and> isPrefix closestPredecessorOfFirstId i
            \<and> compareTo_tuple (i ! length closestPredecessorOfFirstId) MAX_TUPLE = Equal
         then concat_id closestPredecessorOfNewFirstId
                (getTail i (length closestPredecessorOfFirstId + 1))
         else if compareTo i (newFirstId m) = Less then i
         else concat_id closestPredecessorOfNewFirstId i)"

definition renameIdGreaterThanLastId :: "RenamingMap \<Rightarrow> Identifier \<Rightarrow> Identifier" where
  "renameIdGreaterThanLastId m i =
     (if compareTo (newLastId m) (lastId m) = Less
         \<and> length (lastId m) + 1 < length i
         \<and> isPrefix (lastId m) i
         \<and> compareTo_tuple (i ! length (lastId m)) MIN_TUPLE = Equal
      then getTail i (length (lastId m) + 1)
      else if compareTo (newLastId m) i = Less then i
      else concat_id (newLastId m) i)"

definition renameIdFromIndex :: "RenamingMap \<Rightarrow> int \<Rightarrow> Identifier" where
  "renameIdFromIndex m index =
     createAtPosition (mapReplicaNumber m) (mapClock m) (newRandom m) index"

text \<open>
  The binary search of \<open>findPositionFromIndex\<close>, \<open>while (l <= r)\<close>. It need not
  return: at \<open>m = renamedIdIntervals.length\<close> the read of \<open>otherIdInterval.length\<close>
  throws, after the loop the source throws, and with \<open>l = r\<close> and
  \<open>index < indexes[l]\<close> the loop sets \<open>r = m = l\<close> for ever. \<open>None\<close> is all three.
  (The constructor gives \<open>indexes\<close> the length of \<open>renamedIdIntervals\<close>.)
\<close>

partial_function (option) findPositionLoop ::
  "RenamingMap \<Rightarrow> int \<Rightarrow> nat \<Rightarrow> nat \<Rightarrow> (nat \<times> int) option" where
  "findPositionLoop m index l r =
     (if l \<le> r then
        (if length (renamedIdIntervals m) \<le> (l + r) div 2
            \<or> length (indexes m) \<le> (l + r) div 2 then None
         else if indexes m ! ((l + r) div 2)
                 + length_iv (renamedIdIntervals m ! ((l + r) div 2)) \<le> index
         then findPositionLoop m index ((l + r) div 2 + 1) r
         else if index < indexes m ! ((l + r) div 2)
         then findPositionLoop m index l ((l + r) div 2)
         else Some ((l + r) div 2,
                index - indexes m ! ((l + r) div 2)
                  + ibegin (renamedIdIntervals m ! ((l + r) div 2))))
      else None)"

declare findPositionLoop.simps [code]

definition findPositionFromIndex :: "RenamingMap \<Rightarrow> int \<Rightarrow> (nat \<times> int) option" where
  "findPositionFromIndex m index =
     findPositionLoop m index 0 (length (renamedIdIntervals m))"

definition findIdFromIndex :: "RenamingMap \<Rightarrow> int \<Rightarrow> Identifier option" where
  "findIdFromIndex m index =
     (case findPositionFromIndex m index of
        None \<Rightarrow> None
      | Some (idIntervalIndex, off) \<Rightarrow>
          Some (fromBase (idBegin (renamedIdIntervals m ! idIntervalIndex)) off))"

text \<open>
  When the predecessor closes the last interval, the read of
  \<open>renamedIdIntervals[predecessorIndex + 1].idBegin\<close> throws: \<open>None\<close>.
\<close>

definition findPredecessorAndSuccessorFromIndex ::
  "RenamingMap \<Rightarrow> int \<Rightarrow> (Identifier \<times> Identifier) option" where
  "findPredecessorAndSuccessorFromIndex m index =
     (case findPositionFromIndex m index of
        None \<Rightarrow> None
      | Some (predecessorIndex, predecessorOffset) \<Rightarrow>
          (let predecessorIdInterval = renamedIdIntervals m ! predecessorIndex;
               predecessorId = fromBase (idBegin predecessorIdInterval) predecessorOffset
           in if predecessorOffset \<noteq> iend predecessorIdInterval
              then Some (predecessorId, fromBase predecessorId (predecessorOffset + 1))
              else if predecessorIndex + 1 < length (renamedIdIntervals m)
              then Some (predecessorId,
                     idBegin (renamedIdIntervals m ! (predecessorIndex + 1)))
              else None))"

definition renameIdFromPredecessorId ::
  "RenamingMap \<Rightarrow> Identifier \<Rightarrow> Identifier \<Rightarrow> int \<Rightarrow> Identifier option" where
  "renameIdFromPredecessorId m i predecessorId index =
     (let newPredecessorId =
            createAtPosition (mapReplicaNumber m) (mapClock m) (newRandom m) index
      in if length predecessorId + 1 < length i
            \<and> isPrefix predecessorId i
            \<and> compareTo_tuple (i ! length predecessorId) MIN_TUPLE = Equal
            \<and> compareTo (getTail i (length predecessorId + 1)) predecessorId = Less
         then Some (concat_id newPredecessorId (getTail i (length predecessorId + 1)))
         else
           (case findIdFromIndex m (index + 1) of
              None \<Rightarrow> None
            | Some successorId \<Rightarrow>
                if length successorId + 1 < length i
                   \<and> isPrefix (fromBase successorId (lastOffset successorId - 1)) i
                   \<and> compareTo_tuple (i ! length successorId) MAX_TUPLE = Equal
                   \<and> compareTo successorId (getTail i (length successorId + 1)) = Less
                then Some (concat_id newPredecessorId (getTail i (length successorId + 1)))
                else Some (concat_id newPredecessorId i)))"

text \<open>
  The while loop of \<open>renameIds\<close> on \<open>currentIndex\<close>, read from \<open>-1\<close> upwards (below
  \<open>-1\<close> the read of \<open>renamedIds[currentIndex + 1]\<close> is undefined and the comparison
  throws: \<open>renameIdsFrom\<close> answers \<open>None\<close> there).
\<close>

function advanceIndex :: "Identifier list \<Rightarrow> Identifier \<Rightarrow> int \<Rightarrow> int" where
  "advanceIndex rs idToRename currentIndex =
     (if currentIndex < int (length rs) - 1
         \<and> compareTo idToRename (rs ! nat (currentIndex + 1)) \<noteq> Less
      then advanceIndex rs idToRename (currentIndex + 1)
      else currentIndex)"
  by pat_completeness auto
termination
  by (relation "measure (\<lambda>(rs, i, currentIndex). nat (int (length rs) - currentIndex))") auto

declare advanceIndex.simps [simp del]

text \<open>The body of the \<open>map\<close> callback after the loop, \<open>currentIndex\<close> being final.\<close>

definition renameAt ::
  "RenamingMap \<Rightarrow> Identifier list \<Rightarrow> Identifier \<Rightarrow> int \<Rightarrow> Identifier option" where
  "renameAt m rs idToRename currentIndex =
     (if renamedIdIntervals m = [] then None
      else if currentIndex = - 1 then Some (renameIdLessThanFirstId m idToRename)
      else if currentIndex < int (length rs)
              \<and> compareTo idToRename (rs ! nat currentIndex) = Equal
      then Some (renameIdFromIndex m currentIndex)
      else if currentIndex = int (length rs) - 1
      then Some (renameIdGreaterThanLastId m idToRename)
      else if int (length rs) \<le> currentIndex then None
      else renameIdFromPredecessorId m idToRename (rs ! nat currentIndex) currentIndex)"

fun renameIdsFrom ::
  "RenamingMap \<Rightarrow> Identifier list \<Rightarrow> int \<Rightarrow> Identifier list \<Rightarrow> Identifier list option" where
  "renameIdsFrom m rs currentIndex [] = Some []"
| "renameIdsFrom m rs currentIndex (idToRename # idsToRename) =
     (if currentIndex < - 1 then None
      else
        (case renameAt m rs idToRename (advanceIndex rs idToRename currentIndex) of
           None \<Rightarrow> None
         | Some renamed \<Rightarrow>
             (case renameIdsFrom m rs (advanceIndex rs idToRename currentIndex) idsToRename of
                None \<Rightarrow> None
              | Some rest \<Rightarrow> Some (renamed # rest))))"

definition renameIds :: "RenamingMap \<Rightarrow> Identifier list \<Rightarrow> int \<Rightarrow> Identifier list option" where
  "renameIds m idsToRename initialIndex =
     renameIdsFrom m (renamedIds m) initialIndex idsToRename"

definition initRenameSeq :: "RenamingMap \<Rightarrow> Identifier list \<Rightarrow> Identifier list option" where
  "initRenameSeq m idsToRename = renameIds m idsToRename (- 1)"

definition hasBeenRenamed :: "RenamingMap \<Rightarrow> Identifier \<Rightarrow> bool" where
  "hasBeenRenamed m i =
     (equalsBase i (newFirstId m) \<and> 0 \<le> lastOffset i \<and> lastOffset i \<le> maxOffset m)"

text \<open>
  \<open>reverseRenameId\<close>. In the branch below \<open>newFirstId\<close> the source reads
  \<open>end.tuples[0].random\<close>, which throws when \<open>id\<close> has a single tuple: \<open>None\<close>.
\<close>

definition reverseRenameId :: "RenamingMap \<Rightarrow> Identifier \<Rightarrow> Identifier option" where
  "reverseRenameId m i =
     (if renamedIdIntervals m = [] then None
      else if hasBeenRenamed m i then findIdFromIndex m (lastOffset i)
      else
       (let closestPredecessorOfNewFirstId =
              fromBase (newFirstId m) (lastOffset (newFirstId m) - 1);
            closestSuccessorOfNewLastId =
              fromBase (newLastId m) (lastOffset (newLastId m) + 1);
            minFirstId =
              (if compareTo (firstId m) closestPredecessorOfNewFirstId = Less
               then firstId m else closestPredecessorOfNewFirstId);
            maxLastId =
              (if compareTo (lastId m) (newLastId m) = Greater
               then lastId m else closestSuccessorOfNewLastId)
        in if compareTo i minFirstId = Less \<or> compareTo maxLastId i = Less then Some i
           else if compareTo i (newFirstId m) = Less then
             (if getTail i 1 = [] then None
              else if random (hd (getTail i 1)) = newRandom m then Some (getTail i 1)
              else Some (fromBase (firstId m) (lastOffset (firstId m) - 1)
                           @ [MAX_TUPLE] @ getTail i 1))
           else if compareTo (lastId m) (newLastId m) = Less
                   \<and> compareTo (newLastId m) i = Less
                   \<and> compareTo i closestSuccessorOfNewLastId = Less then
             (if compareTo (getTail i 1) (lastId m) = Less
              then Some (lastId m @ [MIN_TUPLE] @ getTail i 1)
              else if compareTo (lastId m) (getTail i 1) = Less
                      \<and> compareTo (getTail i 1) (newLastId m) = Less
              then Some (getTail i 1)
              else Some i)
           else if compareTo (newLastId m) i = Less \<and> compareTo i (lastId m) = Less
           then Some (lastId m @ [MIN_TUPLE] @ i)
           else
             (case findPredecessorAndSuccessorFromIndex m (offset (hd i)) of
                None \<Rightarrow> None
              | Some (predecessorId, successorId) \<Rightarrow>
                  if compareTo (getTail i 1) predecessorId = Less
                  then Some (predecessorId @ [MIN_TUPLE] @ getTail i 1)
                  else if compareTo successorId (getTail i 1) = Less
                  then Some (fromBase successorId (lastOffset successorId - 1)
                               @ [MAX_TUPLE] @ getTail i 1)
                  else Some (getTail i 1))))"

section \<open>Deserialization\<close>

text \<open>
  The values \<open>fromPlain\<close> can be handed: any JavaScript value. Only integers matter to
  the checks below, so a number that is no integer (a fraction, NaN, an infinity) is the one
  value \<open>PNonInteger\<close>. An object is the list of its own properties.
\<close>

datatype plain =
    PUndefined
  | PNull
  | PBoolean bool
  | PNumber int
  | PNonInteger
  | PString string
  | PArray "plain list"
  | PObject "(string \<times> plain) list"

text \<open>Property access \<open>o.name\<close> as the functions below use it: on an object with no
  such property, and on an array, the value is \<open>undefined\<close>.\<close>

definition getProp :: "plain \<Rightarrow> string \<Rightarrow> plain" where
  "getProp p name =
     (case p of
        PObject kvs \<Rightarrow> (case map_of kvs name of None \<Rightarrow> PUndefined | Some v \<Rightarrow> v)
      | _ \<Rightarrow> PUndefined)"

text \<open>\<open>typeof o === "object" && o !== null\<close>, which is also what \<open>isObject\<close> of the
  module data-validation (not among the sources) is modelled as; \<open>instanceof Object\<close>
  holds of the same plain values.\<close>

definition isObject :: "plain \<Rightarrow> bool" where
  "isObject p = (case p of PObject _ \<Rightarrow> True | PArray _ \<Rightarrow> True | _ \<Rightarrow> False)"

definition isInt32_plain :: "plain \<Rightarrow> bool" where
  "isInt32_plain p = (case p of PNumber n \<Rightarrow> isInt32 n | _ \<Rightarrow> False)"

definition numberOf :: "plain \<Rightarrow> int" where
  "numberOf p = (case p of PNumber n \<Rightarrow> n | _ \<Rightarrow> 0)"

text \<open>
  Modelled from the spec: \<open>IdentifierTuple.fromPlain\<close>, \<open>Identifier.fromPlain\<close> and
  \<open>IdentifierInterval.fromPlain\<close> (not among the sources). An interval serializes as
  \<open>{ base: tuple[], begin: int32, end: int32 }\<close>, the base being a sequence of tuples
  \<open>{ random, replicaNumber, clock, offset }\<close>, all int32; deserialization rejects values
  outside int32, missing fields and a base that is no array; an identifier has at least
  one tuple and an interval has \<open>begin \<le> end\<close>.
\<close>

definition fromPlain_tuple :: "plain \<Rightarrow> IdentifierTuple option" where
  "fromPlain_tuple p =
     (if isObject p \<and> isInt32_plain (getProp p ''random'')
         \<and> isInt32_plain (getProp p ''replicaNumber'')
         \<and> isInt32_plain (getProp p ''clock'') \<and> isInt32_plain (getProp p ''offset'')
      then Some (IdentifierTuple (numberOf (getProp p ''random''))
                   (numberOf (getProp p ''replicaNumber''))
                   (numberOf (getProp p ''clock'')) (numberOf (getProp p ''offset'')))
      else None)"

definition fromPlain_interval :: "plain \<Rightarrow> IdentifierInterval option" where
  "fromPlain_interval p =
     (if isObject p \<and> isInt32_plain (getProp p ''begin'') \<and> isInt32_plain (getProp p ''end'')
         \<and> numberOf (getProp p ''begin'') \<le> numberOf (getProp p ''end'')
      then (case getProp p ''base'' of
              PArray ts \<Rightarrow>
                if ts \<noteq> [] \<and> list_all (\<lambda>t. fromPlain_tuple t \<noteq> None) ts
                then Some \<lparr>base = map (\<lambda>t. the (fromPlain_tuple t)) ts,
                           ibegin = numberOf (getProp p ''begin''),
                           iend = numberOf (getProp p ''end'')\<rparr>
                else None
            | _ \<Rightarrow> None)
      else None)"

text \<open>\<open>LogootSBlock.fromPlain\<close>.\<close>

definition fromPlain_LogootSBlock :: "plain \<Rightarrow> LogootSBlock option" where
  "fromPlain_LogootSBlock p =
     (if isObject p then
        (if isObject (getProp p ''idInterval'')
            \<and> (case getProp p ''nbElement'' of PNumber _ \<Rightarrow> True | PNonInteger \<Rightarrow> True
                | _ \<Rightarrow> False)
            \<and> isInt32_plain (getProp p ''nbElement'') \<and> numberOf (getProp p ''nbElement'') \<ge> 0
         then (case fromPlain_interval (getProp p ''idInterval'') of
                 None \<Rightarrow> None
               | Some iv \<Rightarrow> Some (newLogootSBlock iv (numberOf (getProp p ''nbElement''))))
         else None)
      else None)"

text \<open>\<open>RenamingMap.fromPlain\<close>: the intervals are mapped through
  \<open>IdentifierInterval.fromPlain\<close>, the nulls are filtered out and the lengths compared.\<close>

definition fromPlain_RenamingMap :: "plain \<Rightarrow> RenamingMap option" where
  "fromPlain_RenamingMap p =
     (if isObject p \<and> isInt32_plain (getProp p ''replicaNumber'')
         \<and> isInt32_plain (getProp p ''clock'')
      then (case getProp p ''renamedIdIntervals'' of
              PArray ivs \<Rightarrow>
                if length ivs > 0 then
                  (let renamedIdIntervals =
                         filter (\<lambda>v. v \<noteq> None) (map fromPlain_interval ivs)
                   in if length ivs = length renamedIdIntervals
                      then Some (newRenamingMap (numberOf (getProp p ''replicaNumber''))
                                   (numberOf (getProp p ''clock'')) (map the renamedIdIntervals))
                      else None)
                else None
            | _ \<Rightarrow> None)
      else None)"

text \<open>
  The malformed payloads in the words of the spec: no object, a field missing or no int32,
  \<open>nbElement\<close> negative, an invalid interval; for a renaming map, an array of intervals
  that is missing, empty or partially invalid.
\<close>

definition malformedBlock :: "plain \<Rightarrow> bool" where
  "malformedBlock p =
     (\<not> isObject p \<or> \<not> isInt32_plain (getProp p ''nbElement'')
      \<or> numberOf (getProp p ''nbElement'') < 0
      \<or> fromPlain_interval (getProp p ''idInterval'') = None)"

definition plainIntervals :: "plain \<Rightarrow> plain list" where
  "plainIntervals p = (case getProp p ''renamedIdIntervals'' of PArray ivs \<Rightarrow> ivs | _ \<Rightarrow> [])"

definition malformedMap :: "plain \<Rightarrow> bool" where
  "malformedMap p =
     (\<not> isObject p \<or> \<not> isInt32_plain (getProp p ''replicaNumber'')
      \<or> \<not> isInt32_plain (getProp p ''clock'')
      \<or> plainIntervals p = []
      \<or> list_ex (\<lambda>iv. fromPlain_interval iv = None) (plainIntervals p))"

section \<open>Extended renaming map\<close>

text \<open>
  The nested \<open>Map\<close> from the replica number, the clock and the last offset of a renamed
  identifier to its new offset, and the \<open>Map\<close> from new offsets back to the renamed
  identifiers, are partial functions.
\<close>

record ExtendedRenamingMap =
  extReplicaNumber :: int
  extClock :: int
  extRenamedIds :: "Identifier list"
  extMap :: "int \<rightharpoonup> (int \<rightharpoonup> (int \<rightharpoonup> int))"
  newOffsetToOldIdMap :: "int \<rightharpoonup> Identifier"
  extMaxOffset :: int

text \<open>The body of the constructor's \<open>forEach\<close> for one identifier, \<open>id.replicaNumber\<close>
  and \<open>id.clock\<close> being the fields of the last tuple.\<close>

definition registerId :: "ExtendedRenamingMap \<Rightarrow> int \<Rightarrow> Identifier \<Rightarrow> ExtendedRenamingMap" where
  "registerId e newOffset i =
     (let clockMap = (case extMap e (replicaNumber (last i)) of
                        None \<Rightarrow> Map.empty | Some cm \<Rightarrow> cm);
          offsetMap = (case clockMap (clock (last i)) of
                        None \<Rightarrow> Map.empty | Some om \<Rightarrow> om)
      in e\<lparr>extRenamedIds := extRenamedIds e @ [i],
           extMap := (extMap e)(replicaNumber (last i) \<mapsto>
                        clockMap(clock (last i) \<mapsto> offsetMap(lastOffset i \<mapsto> newOffset))),
           newOffsetToOldIdMap := (newOffsetToOldIdMap e)(newOffset \<mapsto> i)\<rparr>)"

fun registerIds ::
  "ExtendedRenamingMap \<Rightarrow> int \<Rightarrow> Identifier list \<Rightarrow> ExtendedRenamingMap" where
  "registerIds e newOffset [] = e\<lparr>extMaxOffset := newOffset - 1\<rparr>"
| "registerIds e newOffset (i # ids) = registerIds (registerId e newOffset i) (newOffset + 1) ids"

text \<open>
  The constructor. \<open>reduce(flatten)\<close> has no initial value and throws on an empty list
  of intervals: \<open>None\<close>. \<open>flatten\<close> (module helpers, not among the sources) is
  modelled from its use: it concatenates.
\<close>

definition newExtendedRenamingMap ::
  "int \<Rightarrow> int \<Rightarrow> IdentifierInterval list \<Rightarrow> ExtendedRenamingMap option" where
  "newExtendedRenamingMap rep clk ivs =
     (if ivs = [] then None
      else Some (registerIds
                   \<lparr>extReplicaNumber = rep, extClock = clk, extRenamedIds = [],
                    extMap = Map.empty, newOffsetToOldIdMap = Map.empty, extMaxOffset = 0\<rparr>
                   0 (concat (map toIds ivs))))"

definition fromRenamingMap :: "RenamingMap \<Rightarrow> ExtendedRenamingMap option" where
  "fromRenamingMap m =
     newExtendedRenamingMap (mapReplicaNumber m) (mapClock m) (renamedIdIntervals m)"

definition extFirstId :: "ExtendedRenamingMap \<Rightarrow> Identifier" where
  "extFirstId e = hd (extRenamedIds e)"

definition extLastId :: "ExtendedRenamingMap \<Rightarrow> Identifier" where
  "extLastId e = last (extRenamedIds e)"

definition extNewRandom :: "ExtendedRenamingMap \<Rightarrow> int" where
  "extNewRandom e = random (hd (extFirstId e))"

definition extNewFirstId :: "ExtendedRenamingMap \<Rightarrow> Identifier" where
  "extNewFirstId e = createAtPosition (extReplicaNumber e) (extClock e) (extNewRandom e) 0"

definition extNewLastId :: "ExtendedRenamingMap \<Rightarrow> Identifier" where
  "extNewLastId e =
     createAtPosition (extReplicaNumber e) (extClock e) (extNewRandom e) (extMaxOffset e)"

text \<open>The three nested lookups of \<open>renameId\<close>.\<close>

definition lookupOffset :: "ExtendedRenamingMap \<Rightarrow> Identifier \<Rightarrow> int option" where
  "lookupOffset e i =
     (case extMap e (replicaNumber (last i)) of
        None \<Rightarrow> None
      | Some clockMap \<Rightarrow>
          (case clockMap (clock (last i)) of
             None \<Rightarrow> None
           | Some offsetMap \<Rightarrow> offsetMap (lastOffset i)))"

text \<open>
  Modelled from the spec: \<open>findPredecessor\<close> (module helpers, not among the sources)
  gives the greatest renamed identifier strictly less than \<open>id\<close>, and nothing
  (\<open>undefined\<close>) when there is none.
\<close>

definition findPredecessor :: "Identifier list \<Rightarrow> Identifier \<Rightarrow> Identifier option" where
  "findPredecessor rs i =
     (case filter (\<lambda>x. compareTo x i = Less) rs of
        [] \<Rightarrow> None
      | x # xs \<Rightarrow> Some (fold max xs x))"

text \<open>
  \<open>ExtendedRenamingMap.renameId\<close>. With no predecessor the recursive call reads a field
  of \<open>undefined\<close> and throws: \<open>None\<close>.
\<close>

function extRenameId :: "ExtendedRenamingMap \<Rightarrow> Identifier \<Rightarrow> Identifier option" where
  "extRenameId e i =
     (if extRenamedIds e = [] then None
      else if compareTo i (extFirstId e) = Less \<or> compareTo (extLastId e) i = Less
      then Some i
      else
        (case lookupOffset e i of
           Some newOffset \<Rightarrow>
             Some (createAtPosition (extReplicaNumber e) (extClock e) (extNewRandom e) newOffset)
         | None \<Rightarrow>
             (case findPredecessor (extRenamedIds e) i of
                None \<Rightarrow> None
              | Some predecessorId \<Rightarrow>
                  (case extRenameId e predecessorId of
                     None \<Rightarrow> None
                   | Some newPredecessorId \<Rightarrow> Some (concat_id newPredecessorId i)))))"
  by pat_completeness auto
termination
proof (relation "measure (\<lambda>(e, i). length (filter (\<lambda>x. x < i) (extRenamedIds e)))")
  show "wf (measure (\<lambda>(e, i). length (filter (\<lambda>x. x < i) (extRenamedIds e))))"
    by simp
next
  fix e :: ExtendedRenamingMap and i p :: Identifier
  have cmp: "(compareTo x i = Less) = (x < i)" for x
    by (simp add: compareTo_def)
  assume "findPredecessor (extRenamedIds e) i = Some p"
  then obtain x xs where below: "filter (\<lambda>x. x < i) (extRenamedIds e) = x # xs"
    and p: "p = fold max xs x"
    by (auto simp: findPredecessor_def cmp split: list.splits)
  have "p = Max (set (x # xs))" unfolding p by (rule Max.set_eq_fold [symmetric])
  then have "p \<in> set (x # xs)" using Max_in [of "set (x # xs)"] by simp
  then have mem: "p \<in> set (filter (\<lambda>x. x < i) (extRenamedIds e))" using below by simp
  then have lt: "p < i" by simp
  have "filter (\<lambda>x. x < p) (extRenamedIds e)
        = filter (\<lambda>x. x < p) (filter (\<lambda>x. x < i) (extRenamedIds e))"
    using lt by (auto intro: filter_cong)
  moreover have "length (filter (\<lambda>x. x < p) (filter (\<lambda>x. x < i) (extRenamedIds e)))
        < length (filter (\<lambda>x. x < i) (extRenamedIds e))"
    using mem by (intro length_filter_less [where x = p]) simp_all
  ultimately show "((e, p), (e, i))
      \<in> measure (\<lambda>(e, i). length (filter (\<lambda>x. x < i) (extRenamedIds e)))"
    by simp
qed

declare extRenameId.simps [simp del]

definition extHasBeenRenamed :: "ExtendedRenamingMap \<Rightarrow> Identifier \<Rightarrow> bool" where
  "extHasBeenRenamed e i =
     (equalsBase i (extNewFirstId e) \<and> 0 \<le> lastOffset i \<and> lastOffset i \<le> extMaxOffset e)"

text \<open>
  \<open>ExtendedRenamingMap.reverseRenameId\<close>. A missing entry of \<open>newOffsetToOldIdMap\<close>
  is \<open>undefined\<close>: returned as such in the first branch, and the comparison with it
  throws in the last one; either way no identifier comes back: \<open>None\<close>.
  \<open>truncate(1)\<close> is modelled from the spec: the first tuple and the remainder.
\<close>

definition extReverseRenameId :: "ExtendedRenamingMap \<Rightarrow> Identifier \<Rightarrow> Identifier option" where
  "extReverseRenameId e i =
     (if extRenamedIds e = [] then None
      else if extHasBeenRenamed e i then newOffsetToOldIdMap e (lastOffset i)
      else if compareTo i (extFirstId e) = Less \<or> compareTo (extLastId e) i = Less
      then Some i
      else if compareTo (extNewLastId e) i = Less \<and> compareTo i (extLastId e) = Less
      then Some (concat_id (extLastId e) i)
      else
        (case newOffsetToOldIdMap e (lastOffset (take 1 i)) of
           None \<Rightarrow> None
         | Some predecessorId \<Rightarrow>
             if compareTo (drop 1 i) predecessorId = Less
             then Some (concat_id predecessorId (drop 1 i))
             else
               (case newOffsetToOldIdMap e (lastOffset (take 1 i) + 1) of
                  None \<Rightarrow> None
                | Some successorId \<Rightarrow>
                    if compareTo successorId (drop 1 i) = Less
                    then Some (concat_id
                                 (fromBase successorId (lastOffset successorId - 1))
                                 (drop 1 i))
                    else Some (drop 1 i))))"


text \<open>
  The shape the two outer branches of \<open>renameIds\<close> test for: \<open>id\<close> continues the
  prefix \<open>p\<close> with the tuple \<open>t\<close> and at least one more tuple.
\<close>

definition sentinelAfter :: "Identifier \<Rightarrow> IdentifierTuple \<Rightarrow> Identifier \<Rightarrow> bool" where
  "sentinelAfter p t i = (length p + 1 < length i \<and> isPrefix p i \<and> i ! length p = t)"

text \<open>The bounds \<open>minFirstId\<close> and \<open>maxLastId\<close> that \<open>reverseRenameId\<close> computes.\<close>

definition minFirstId :: "RenamingMap \<Rightarrow> Identifier" where
  "minFirstId m =
     (if compareTo (firstId m) (fromBase (newFirstId m) (lastOffset (newFirstId m) - 1)) = Less
      then firstId m else fromBase (newFirstId m) (lastOffset (newFirstId m) - 1))"

definition maxLastId :: "RenamingMap \<Rightarrow> Identifier" where
  "maxLastId m =
     (if compareTo (lastId m) (newLastId m) = Greater
      then lastId m else fromBase (newLastId m) (lastOffset (newLastId m) + 1))"

text \<open>Intervals for the examples: a snapshot of five identifiers in two blocks, and two
  single identifiers listed in descending order.\<close>

definition exampleIntervals :: "IdentifierInterval list" where
  "exampleIntervals =
     [\<lparr>base = [IdentifierTuple 0 5 0 0], ibegin = 0, iend = 2\<rparr>,
      \<lparr>base = [IdentifierTuple 10 6 0 0], ibegin = 0, iend = 1\<rparr>]"

definition swappedIntervals :: "IdentifierInterval list" where
  "swappedIntervals =
     [\<lparr>base = [IdentifierTuple 10 6 0 0], ibegin = 0, iend = 0\<rparr>,
      \<lparr>base = [IdentifierTuple 0 5 0 0], ibegin = 0, iend = 0\<rparr>]"

text \<open>
  Two renamings that end at the same identifier \<open>[(30,8,0,0)]\<close>: one of the whole
  sequence, by replica 2, and one of its last element alone, by replica 5.
\<close>

definition wholeIntervals :: "IdentifierInterval list" where
  "wholeIntervals =
     [\<lparr>base = [IdentifierTuple 5 4 0 0], ibegin = 0, iend = 0\<rparr>,
      \<lparr>base = [IdentifierTuple 30 8 0 0], ibegin = 0, iend = 0\<rparr>]"

definition lastIntervals :: "IdentifierInterval list" where
  "lastIntervals = [\<lparr>base = [IdentifierTuple 30 8 0 0], ibegin = 0, iend = 0\<rparr>]"

text \<open>
  The identifiers the sentinels are meant to bracket: at least one tuple, each strictly
  between \<open>MIN_TUPLE\<close> and \<open>MAX_TUPLE\<close>. And the identifiers that do not start with a
  tuple of the renaming itself, that is with \<open>(newRandom, replicaNumber, clock)\<close> of the
  map, which no element of the renamed epoch carries.
\<close>

definition plainId :: "Identifier \<Rightarrow> bool" where
  "plainId i = (i \<noteq> [] \<and> list_all (\<lambda>t. MIN_TUPLE < t \<and> t < MAX_TUPLE) i)"

definition freshFor :: "RenamingMap \<Rightarrow> Identifier \<Rightarrow> bool" where
  "freshFor m i = (\<not> equalsBase_tuple (hd i) (hd (newFirstId m)))"

section \<open>Well-formed renaming maps\<close>

text \<open>
  What the constructors assert: an identifier has at least one tuple and an interval has
  \<open>begin \<le> end\<close>; a renaming map is built from at least one interval.
\<close>

definition wellFormedInterval :: "IdentifierInterval \<Rightarrow> bool" where
  "wellFormedInterval iv = (base iv \<noteq> [] \<and> ibegin iv \<le> iend iv)"

definition wellFormedIntervals :: "IdentifierInterval list \<Rightarrow> bool" where
  "wellFormedIntervals ivs = (ivs \<noteq> [] \<and> list_all wellFormedInterval ivs)"

text \<open>The renamed identifiers of a snapshot of the sequence come in strictly ascending
  order.\<close>

definition ascending :: "Identifier list \<Rightarrow> bool" where
  "ascending rs = sorted_wrt (\<lambda>a b. compareTo a b = Less) rs"

text \<open>The state the constructor leaves behind, given well-formed intervals.\<close>

definition wellFormedMap :: "RenamingMap \<Rightarrow> bool" where
  "wellFormedMap m =
     (wellFormedIntervals (renamedIdIntervals m)
      \<and> indexes m = pushIndexes 0 (renamedIdIntervals m)
      \<and> maxOffset m = lastIndex 0 (renamedIdIntervals m) - 1)"

text \<open>
  The two shapes \<open>renameIdFromPredecessorId\<close> looks for, as its comments name them:
  \<open>id = predecessorId + MIN_TUPLE + tail\<close> with \<open>tail < predecessorId\<close>, and
  \<open>id = closestPredecessorOfSuccessorId + MAX_TUPLE + tail\<close> with
  \<open>successorId < tail\<close>.
\<close>

definition afterMinTuple :: "Identifier \<Rightarrow> Identifier \<Rightarrow> bool" where
  "afterMinTuple predecessorId i =
     (length predecessorId + 1 < length i \<and> isPrefix predecessorId i
      \<and> i ! length predecessorId = MIN_TUPLE
      \<and> getTail i (length predecessorId + 1) < predecessorId)"

definition beforeMaxTuple :: "Identifier \<Rightarrow> Identifier \<Rightarrow> bool" where
  "beforeMaxTuple successorId i =
     (length successorId + 1 < length i
      \<and> isPrefix (fromBase successorId (lastOffset successorId - 1)) i
      \<and> i ! length successorId = MAX_TUPLE
      \<and> successorId < getTail i (length successorId + 1))"

section \<open>Order facts\<close>

lemma less_tuple_iff:
  "(IdentifierTuple r1 p1 c1 o1 < IdentifierTuple r2 p2 c2 o2) =
     (r1 < r2 \<or> r1 = r2 \<and> (p1 < p2 \<or> p1 = p2 \<and> (c1 < c2 \<or> c1 = c2 \<and> o1 < o2)))"
  by (auto simp: less_IdentifierTuple_def asArray_def less_prod_def)

lemma less_tuple_sel:
  "(a < b) =
     (random a < random b \<or> random a = random b \<and>
       (replicaNumber a < replicaNumber b \<or> replicaNumber a = replicaNumber b \<and>
         (clock a < clock b \<or> clock a = clock b \<and> offset a < offset b)))"
  by (cases a, cases b) (simp add: less_tuple_iff)

lemma random_less_imp_less: "random a < random b \<Longrightarrow> a < (b :: IdentifierTuple)"
  by (simp add: less_tuple_sel)

lemma compareTo_Less [simp]: "(compareTo a b = Less) = (a < b)"
  by (simp add: compareTo_def)

lemma compareTo_Equal [simp]: "(compareTo a b = Equal) = (a = b)"
  by (simp add: compareTo_def)

lemma compareTo_Greater [simp]: "(compareTo a b = Greater) = (b < a)"
  by (auto simp: compareTo_def)

lemma compareTo_tuple_Equal [simp]: "(compareTo_tuple a b = Equal) = (a = b)"
  by (simp add: compareTo_tuple_def)

section \<open>The identifier factory\<close>

lemma drawsInRangeD:
  "drawsInRange rnd \<Longrightarrow> l < u \<Longrightarrow> l \<le> rnd l u \<and> rnd l u < u"
  by (simp add: drawsInRange_def)



lemma paddedAt_0: "paddedAt ts d 0 = seqValue ts d"
  by (simp add: paddedAt_def seqValue_def split: list.splits)

lemma paddedAt_Suc: "paddedAt ts d (Suc i) = paddedAt (tl ts) d i"
  by (auto simp: paddedAt_def nth_tl split: list.splits)

lemma betweenTuples_shape:
  "drawsInRange rnd \<Longrightarrow>
   \<exists>n r. betweenTuples rnd rep clk seq1 seq2 =
            map (paddedAt seq1 MIN_TUPLE) [0..<n] @ [IdentifierTuple r rep clk 0]
        \<and> (\<forall>i<n. random (paddedAt seq2 MAX_TUPLE i) - random (paddedAt seq1 MIN_TUPLE i) < 2)
        \<and> random (paddedAt seq1 MIN_TUPLE n) < r \<and> r < random (paddedAt seq2 MAX_TUPLE n)"
proof (induction rnd rep clk seq1 seq2 rule: betweenTuples.induct)
  case (1 rnd rep clk seq1 seq2)
  show ?case
  proof (cases "random (seqValue seq2 MAX_TUPLE) - random (seqValue seq1 MIN_TUPLE) < 2")
    case True
    from "1.IH" [OF True "1.prems"] obtain n r where
      eq: "betweenTuples rnd rep clk (tl seq1) (tl seq2) =
            map (paddedAt (tl seq1) MIN_TUPLE) [0..<n] @ [IdentifierTuple r rep clk 0]"
      and gaps: "\<forall>i<n. random (paddedAt (tl seq2) MAX_TUPLE i)
                        - random (paddedAt (tl seq1) MIN_TUPLE i) < 2"
      and lo: "random (paddedAt (tl seq1) MIN_TUPLE n) < r"
      and hi: "r < random (paddedAt (tl seq2) MAX_TUPLE n)"
      by blast
    have shift: "map (paddedAt seq1 MIN_TUPLE) [Suc 0..<Suc n] =
                 map (paddedAt (tl seq1) MIN_TUPLE) [0..<n]"
      unfolding map_Suc_upt [symmetric] by (simp add: paddedAt_Suc)
    have "betweenTuples rnd rep clk seq1 seq2 =
            seqValue seq1 MIN_TUPLE # betweenTuples rnd rep clk (tl seq1) (tl seq2)"
      using True by (subst betweenTuples.simps) simp
    then have "betweenTuples rnd rep clk seq1 seq2 =
            map (paddedAt seq1 MIN_TUPLE) [0..<Suc n] @ [IdentifierTuple r rep clk 0]"
      using eq shift by (simp add: upt_conv_Cons paddedAt_0 del: upt_Suc)
    moreover have "\<forall>i<Suc n. random (paddedAt seq2 MAX_TUPLE i)
                              - random (paddedAt seq1 MIN_TUPLE i) < 2"
    proof (intro allI impI)
      fix i assume "i < Suc n"
      then show "random (paddedAt seq2 MAX_TUPLE i) - random (paddedAt seq1 MIN_TUPLE i) < 2"
        using True gaps by (cases i) (simp_all add: paddedAt_0 paddedAt_Suc)
    qed
    moreover have "random (paddedAt seq1 MIN_TUPLE (Suc n)) < r"
      using lo by (simp add: paddedAt_Suc)
    moreover have "r < random (paddedAt seq2 MAX_TUPLE (Suc n))"
      using hi by (simp add: paddedAt_Suc)
    ultimately show ?thesis by blast
  next
    case False
    then have "random (seqValue seq1 MIN_TUPLE) + 1 < random (seqValue seq2 MAX_TUPLE)"
      by simp
    from drawsInRangeD [OF "1.prems"(1) this]
    have "betweenTuples rnd rep clk seq1 seq2 =
            map (paddedAt seq1 MIN_TUPLE) [0..<0] @
            [IdentifierTuple
               (rnd (random (seqValue seq1 MIN_TUPLE) + 1) (random (seqValue seq2 MAX_TUPLE)))
               rep clk 0]
        \<and> (\<forall>i<(0::nat). random (paddedAt seq2 MAX_TUPLE i)
                          - random (paddedAt seq1 MIN_TUPLE i) < 2)
        \<and> random (paddedAt seq1 MIN_TUPLE 0)
            < rnd (random (seqValue seq1 MIN_TUPLE) + 1) (random (seqValue seq2 MAX_TUPLE))
        \<and> rnd (random (seqValue seq1 MIN_TUPLE) + 1) (random (seqValue seq2 MAX_TUPLE))
            < random (paddedAt seq2 MAX_TUPLE 0)"
      using False by (subst betweenTuples.simps) (simp add: paddedAt_0)
    then show ?thesis by blast
  qed
qed

lemma drawsInRange_lower: "drawsInRange (\<lambda>l u. l)"
  by (simp add: drawsInRange_def)



text \<open>
  The precondition on \<open>id2\<close> is kept by the factory itself: from a lower bound with no
  tuple below \<open>MIN_TUPLE\<close> it returns an identifier with no tuple below \<open>MIN_TUPLE\<close>
  whose last tuple, the drawn one, lies above it.
\<close>

lemma MIN_TUPLE_le_random: "MIN_TUPLE \<le> t \<Longrightarrow> INT32_BOTTOM \<le> random t"
  by (cases t) (auto simp: MIN_TUPLE_def less_eq_IdentifierTuple_def asArray_def less_eq_prod_def)

lemma random_above_MIN_TUPLE: "INT32_BOTTOM < r \<Longrightarrow> MIN_TUPLE < IdentifierTuple r rep clk 0"
  by (simp add: MIN_TUPLE_def less_tuple_iff)

lemma paddedAt_above_MIN_TUPLE:
  "\<forall>t\<in>set ts. MIN_TUPLE \<le> t \<Longrightarrow> MIN_TUPLE \<le> paddedAt ts MIN_TUPLE i"
  by (simp add: paddedAt_def)

lemma createBetweenPosition_keeps_padding:
  assumes d: "drawsInRange rnd" and lo: "\<forall>t\<in>set (tuplesOf id1). MIN_TUPLE \<le> t"
  shows "paddingBelow (Some (createBetweenPosition rnd id1 id2 rep clk))"
proof -
  from betweenTuples_shape [OF d, of rep clk "tuplesOf id1" "tuplesOf id2"]
  obtain n r where eq: "createBetweenPosition rnd id1 id2 rep clk =
        map (paddedAt (tuplesOf id1) MIN_TUPLE) [0..<n] @ [IdentifierTuple r rep clk 0]"
    and r: "random (paddedAt (tuplesOf id1) MIN_TUPLE n) < r"
    by (auto simp: createBetweenPosition_def)
  from MIN_TUPLE_le_random [OF paddedAt_above_MIN_TUPLE [OF lo, of n]] r
  have "INT32_BOTTOM < r" by simp
  then have new: "MIN_TUPLE < IdentifierTuple r rep clk 0" by (rule random_above_MIN_TUPLE)
  have "\<forall>t\<in>set (map (paddedAt (tuplesOf id1) MIN_TUPLE) [0..<n]). MIN_TUPLE \<le> t"
    using paddedAt_above_MIN_TUPLE [OF lo] by auto
  with new show ?thesis
    unfolding eq by (auto simp: paddingBelow_def list_all_iff)
qed

text \<open>
  Claim C6 (shape of the generated identifier), as amended. The result is the tuples of
  \<open>id1\<close> padded with \<open>MIN_TUPLE\<close> at the depths \<open>0..<n\<close>, at each of which the
  padded tuples satisfy \<open>t2.random - t1.random < 2\<close>, followed by exactly one tuple
  \<open>(r, replicaNumber, clock, 0)\<close> with \<open>r\<close> strictly between the random fields of the
  tuples at depth \<open>n\<close>. That last tuple is the only one that carries the caller's
  \<open>(replicaNumber, clock)\<close> when none of the inherited tuples carries it.
\<close>

theorem createBetweenPosition_shape:
  assumes "drawsInRange rnd"
  shows "\<exists>n r. createBetweenPosition rnd id1 id2 rep clk =
            map (paddedAt (tuplesOf id1) MIN_TUPLE) [0..<n] @ [IdentifierTuple r rep clk 0]
        \<and> (\<forall>i<n. random (paddedAt (tuplesOf id2) MAX_TUPLE i)
                  - random (paddedAt (tuplesOf id1) MIN_TUPLE i) < 2)
        \<and> random (paddedAt (tuplesOf id1) MIN_TUPLE n) < r
        \<and> r < random (paddedAt (tuplesOf id2) MAX_TUPLE n)
        \<and> ((\<forall>i<n. \<not> carries rep clk (paddedAt (tuplesOf id1) MIN_TUPLE i)) \<longrightarrow>
             filter (carries rep clk) (createBetweenPosition rnd id1 id2 rep clk)
               = [IdentifierTuple r rep clk 0])"
proof -
  from betweenTuples_shape [OF assms, of rep clk "tuplesOf id1" "tuplesOf id2"]
  obtain n r where
    eq: "createBetweenPosition rnd id1 id2 rep clk =
            map (paddedAt (tuplesOf id1) MIN_TUPLE) [0..<n] @ [IdentifierTuple r rep clk 0]"
    and rest: "(\<forall>i<n. random (paddedAt (tuplesOf id2) MAX_TUPLE i)
                  - random (paddedAt (tuplesOf id1) MIN_TUPLE i) < 2)"
        "random (paddedAt (tuplesOf id1) MIN_TUPLE n) < r"
        "r < random (paddedAt (tuplesOf id2) MAX_TUPLE n)"
    unfolding createBetweenPosition_def by blast
  have "filter (carries rep clk) (createBetweenPosition rnd id1 id2 rep clk)
               = [IdentifierTuple r rep clk 0]"
    if "\<forall>i<n. \<not> carries rep clk (paddedAt (tuplesOf id1) MIN_TUPLE i)"
  proof -
    from that have "filter (carries rep clk) (map (paddedAt (tuplesOf id1) MIN_TUPLE) [0..<n]) = []"
      by (simp add: filter_empty_conv)
    then show ?thesis unfolding eq by (simp add: carries_def)
  qed
  with eq rest show ?thesis by blast
qed

theorem createBetweenPosition_shape_witness:
  "drawsInRange (\<lambda>l u. l) \<and>
   (\<exists>n r. createBetweenPosition (\<lambda>l u. l) (Some [IdentifierTuple 5 1 0 0])
               (Some [IdentifierTuple 6 1 0 0]) 7 3 =
            map (paddedAt (tuplesOf (Some [IdentifierTuple 5 1 0 0])) MIN_TUPLE) [0..<n]
              @ [IdentifierTuple r 7 3 0]) \<and>
   createBetweenPosition (\<lambda>l u. l) (Some [IdentifierTuple 5 1 0 0])
               (Some [IdentifierTuple 6 1 0 0]) 7 3
    = [IdentifierTuple 5 1 0 0, IdentifierTuple (- 2147483647) 7 3 0]"
proof -
  have d: "drawsInRange (\<lambda>l u. l)" by (rule drawsInRange_lower)
  have e: "createBetweenPosition (\<lambda>l u. l) (Some [IdentifierTuple 5 1 0 0])
        (Some [IdentifierTuple 6 1 0 0]) 7 3
       = [IdentifierTuple 5 1 0 0, IdentifierTuple (- 2147483647) 7 3 0]"
    by (simp add: createBetweenPosition_def tuplesOf_def betweenTuples.simps seqValue_def
        MIN_TUPLE_def MAX_TUPLE_def INT32_TOP_def INT32_BOTTOM_def)
  from createBetweenPosition_shape [OF d, of "Some [IdentifierTuple 5 1 0 0]" "Some [IdentifierTuple 6 1 0 0]" 7 3]
  have "\<exists>n r. createBetweenPosition (\<lambda>l u. l) (Some [IdentifierTuple 5 1 0 0])
               (Some [IdentifierTuple 6 1 0 0]) 7 3 =
            map (paddedAt (tuplesOf (Some [IdentifierTuple 5 1 0 0])) MIN_TUPLE) [0..<n]
              @ [IdentifierTuple r 7 3 0]" by blast
  with d e show ?thesis by blast
qed

text \<open>
  An inherited tuple can carry the caller's pair: replica 0 at clock 0 inserting before
  \<open>[(INT32_BOTTOM + 1, 7, 0, 0)]\<close> inherits the padding \<open>MIN_TUPLE = (INT32_BOTTOM, 0, 0, 0)\<close>,
  so two tuples of the result carry \<open>(0, 0)\<close>.
\<close>

theorem createBetweenPosition_shape_counterexample:
  "drawsInRange (\<lambda>l u. l)
   \<and> orderedBounds None (Some [IdentifierTuple (INT32_BOTTOM + 1) 7 0 0])
   \<and> createBetweenPosition (\<lambda>l u. l) None (Some [IdentifierTuple (INT32_BOTTOM + 1) 7 0 0]) 0 0
       = [MIN_TUPLE, IdentifierTuple (INT32_BOTTOM + 1) 0 0 0]
   \<and> filter (carries 0 0)
        (createBetweenPosition (\<lambda>l u. l) None (Some [IdentifierTuple (INT32_BOTTOM + 1) 7 0 0]) 0 0)
       = [MIN_TUPLE, IdentifierTuple (INT32_BOTTOM + 1) 0 0 0]"
  by (simp add: drawsInRange_lower orderedBounds_def carries_def
      createBetweenPosition_def tuplesOf_def betweenTuples.simps seqValue_def
      MIN_TUPLE_def MAX_TUPLE_def INT32_TOP_def INT32_BOTTOM_def)

section \<open>Blocks\<close>

lemma calls_nonneg:
  "0 \<le> nbElement b \<Longrightarrow> callsPre b cs \<Longrightarrow> 0 \<le> nbElement (calls b cs)"
proof (induction cs arbitrary: b)
  case Nil
  then show ?case by simp
next
  case (Cons c cs)
  from Cons.prems have "0 \<le> nbElement (call b c)"
    by (cases c) (simp_all add: addBlock_def delBlock_def)
  with Cons show ?case by simp
qed

text \<open>
  Claim C9. After construction under the constructor's precondition \<open>nbElement\<close> is a
  non-negative int32, and it is non-negative after every sequence of \<open>addBlock\<close> and
  \<open>delBlock\<close> calls that respect the preconditions, \<open>delBlock\<close> being called with a
  positive count that does not exceed the current \<open>nbElement\<close>.
\<close>

theorem nbElement_nonneg:
  assumes "constructorPre nbElt" and "callsPre (newLogootSBlock iv nbElt) cs"
  shows "isInt32 (nbElement (newLogootSBlock iv nbElt))
       \<and> 0 \<le> nbElement (newLogootSBlock iv nbElt)
       \<and> 0 \<le> nbElement (calls (newLogootSBlock iv nbElt) cs)"
proof -
  from assms(1) have "isInt32 (nbElement (newLogootSBlock iv nbElt))"
    and nn: "0 \<le> nbElement (newLogootSBlock iv nbElt)"
    by (simp_all add: constructorPre_def newLogootSBlock_def)
  moreover from calls_nonneg [OF nn assms(2)]
  have "0 \<le> nbElement (calls (newLogootSBlock iv nbElt) cs)" .
  ultimately show ?thesis by simp
qed

theorem nbElement_nonneg_witness:
  "constructorPre 3
   \<and> callsPre (newLogootSBlock \<lparr>base = [IdentifierTuple 5 1 0 0], ibegin = 0, iend = 2\<rparr> 3)
        [DelBlock 2, AddBlock 3 4, DelBlock 5]
   \<and> nbElement (calls (newLogootSBlock \<lparr>base = [IdentifierTuple 5 1 0 0], ibegin = 0, iend = 2\<rparr> 3)
        [DelBlock 2, AddBlock 3 4, DelBlock 5]) = 0
   \<and> 0 \<le> nbElement (calls (newLogootSBlock \<lparr>base = [IdentifierTuple 5 1 0 0], ibegin = 0, iend = 2\<rparr> 3)
        [DelBlock 2, AddBlock 3 4, DelBlock 5])"
proof -
  have c: "constructorPre 3"
    by (simp add: constructorPre_def isInt32_def INT32_BOTTOM_def INT32_TOP_def)
  have p: "callsPre (newLogootSBlock \<lparr>base = [IdentifierTuple 5 1 0 0], ibegin = 0, iend = 2\<rparr> 3)
        [DelBlock 2, AddBlock 3 4, DelBlock 5]"
    by (simp add: newLogootSBlock_def addBlock_def delBlock_def isInt32_def INT32_BOTTOM_def INT32_TOP_def)
  have e: "nbElement (calls (newLogootSBlock \<lparr>base = [IdentifierTuple 5 1 0 0], ibegin = 0, iend = 2\<rparr> 3)
        [DelBlock 2, AddBlock 3 4, DelBlock 5]) = 0"
    by (simp add: newLogootSBlock_def addBlock_def delBlock_def)
  from nbElement_nonneg [OF c p] c p e show ?thesis by blast
qed

section \<open>Deserialization rejects malformed payloads\<close>

lemma fromPlain_interval_isObject:
  "fromPlain_interval p = Some iv \<Longrightarrow> isObject p"
  by (simp add: fromPlain_interval_def split: if_splits)

lemma filter_all_length:
  "(length xs = length (filter P xs)) = list_all P xs"
proof -
  have "length (filter P xs) + length (filter (\<lambda>x. \<not> P x) xs) = length xs"
    by (rule sum_length_filter_compl)
  then have "(length xs = length (filter P xs)) = (filter (\<lambda>x. \<not> P x) xs = [])"
    by auto
  then show ?thesis
    by (simp add: filter_empty_conv list_all_iff)
qed

text \<open>
  Claim C8. For every value \<open>p\<close>, \<open>LogootSBlock.fromPlain\<close> and
  \<open>RenamingMap.fromPlain\<close> return null exactly when \<open>p\<close> is malformed (no object, a
  field missing or no int32, \<open>nbElement\<close> negative, an invalid interval, or for the map
  an empty or partially invalid array of intervals), and otherwise the object built from
  the fields. Both are functions of their argument alone: there is no state to mutate.
\<close>

theorem fromPlain_rejects_malformed:
  "fromPlain_LogootSBlock p =
     (if malformedBlock p then None
      else Some (newLogootSBlock (the (fromPlain_interval (getProp p ''idInterval'')))
                   (numberOf (getProp p ''nbElement''))))
   \<and> fromPlain_RenamingMap p =
     (if malformedMap p then None
      else Some (newRenamingMap (numberOf (getProp p ''replicaNumber''))
                   (numberOf (getProp p ''clock''))
                   (map (\<lambda>iv. the (fromPlain_interval iv)) (plainIntervals p))))"
proof
  show "fromPlain_LogootSBlock p =
     (if malformedBlock p then None
      else Some (newLogootSBlock (the (fromPlain_interval (getProp p ''idInterval'')))
                   (numberOf (getProp p ''nbElement''))))"
  proof (cases "fromPlain_interval (getProp p ''idInterval'')")
    case None
    then show ?thesis
      by (simp add: fromPlain_LogootSBlock_def malformedBlock_def)
  next
    case (Some iv)
    from fromPlain_interval_isObject [OF this] Some show ?thesis
      by (auto simp: fromPlain_LogootSBlock_def malformedBlock_def isInt32_plain_def
          split: plain.splits)
  qed
next
  have all: "list_all ((\<lambda>v. v \<noteq> None) \<circ> fromPlain_interval) ivs
             = (\<not> list_ex (\<lambda>iv. fromPlain_interval iv = None) ivs)" for ivs
    by (simp add: list_all_iff list_ex_iff del: not_None_eq)
  have same: "map the (filter (\<lambda>v. v \<noteq> None) (map fromPlain_interval ivs))
              = map (\<lambda>iv. the (fromPlain_interval iv)) ivs"
    if "\<not> list_ex (\<lambda>iv. fromPlain_interval iv = None) ivs" for ivs
    using that by (induction ivs) (auto simp del: not_None_eq)
  show "fromPlain_RenamingMap p =
     (if malformedMap p then None
      else Some (newRenamingMap (numberOf (getProp p ''replicaNumber''))
                   (numberOf (getProp p ''clock''))
                   (map (\<lambda>iv. the (fromPlain_interval iv)) (plainIntervals p))))"
  proof (cases "getProp p ''renamedIdIntervals''")
    case (PArray ivs)
    then show ?thesis
      using same [of ivs]
      by (auto simp: fromPlain_RenamingMap_def malformedMap_def plainIntervals_def
          filter_all_length all Let_def simp del: not_None_eq)
  qed (simp_all add: fromPlain_RenamingMap_def malformedMap_def plainIntervals_def)
qed

theorem fromPlain_rejects_malformed_witness:
  "malformedBlock
     (PObject [(''idInterval'', PObject [(''base'', PArray [PObject [(''random'', PNonInteger),
          (''replicaNumber'', PNumber 1), (''clock'', PNumber 10), (''offset'', PNumber 0)]]),
          (''begin'', PNumber 0), (''end'', PNumber 4)]), (''nbElement'', PNumber 5)])
   \<and> fromPlain_LogootSBlock
     (PObject [(''idInterval'', PObject [(''base'', PArray [PObject [(''random'', PNonInteger),
          (''replicaNumber'', PNumber 1), (''clock'', PNumber 10), (''offset'', PNumber 0)]]),
          (''begin'', PNumber 0), (''end'', PNumber 4)]), (''nbElement'', PNumber 5)])
     = None
   \<and> malformedMap
     (PObject [(''idInterval'', PObject [(''base'', PArray [PObject [(''random'', PNonInteger),
          (''replicaNumber'', PNumber 1), (''clock'', PNumber 10), (''offset'', PNumber 0)]]),
          (''begin'', PNumber 0), (''end'', PNumber 4)]), (''nbElement'', PNumber 5)])
   \<and> fromPlain_RenamingMap
     (PObject [(''idInterval'', PObject [(''base'', PArray [PObject [(''random'', PNonInteger),
          (''replicaNumber'', PNumber 1), (''clock'', PNumber 10), (''offset'', PNumber 0)]]),
          (''begin'', PNumber 0), (''end'', PNumber 4)]), (''nbElement'', PNumber 5)])
     = None"
  using fromPlain_rejects_malformed
    [of "PObject [(''idInterval'', PObject [(''base'', PArray [PObject [(''random'', PNonInteger),
          (''replicaNumber'', PNumber 1), (''clock'', PNumber 10), (''offset'', PNumber 0)]]),
          (''begin'', PNumber 0), (''end'', PNumber 4)]), (''nbElement'', PNumber 5)]"]
  by (simp add: malformedBlock_def malformedMap_def fromPlain_interval_def
      fromPlain_tuple_def getProp_def isObject_def isInt32_plain_def numberOf_def isInt32_def
      INT32_BOTTOM_def INT32_TOP_def)

text \<open>A well-formed block, a fractional field, a negative count, an empty and a
  partially invalid array of intervals.\<close>

lemma fromPlain_examples:
  "fromPlain_LogootSBlock
     (PObject [(''idInterval'', PObject [(''base'', PArray [PObject [(''random'', PNumber 42),
          (''replicaNumber'', PNumber 1), (''clock'', PNumber 10), (''offset'', PNumber 0)]]),
          (''begin'', PNumber 0), (''end'', PNumber 4)]), (''nbElement'', PNumber 5)])
    = Some \<lparr>idInterval = \<lparr>base = [IdentifierTuple 42 1 10 0], ibegin = 0, iend = 4\<rparr>, nbElement = 5\<rparr>
  \<and> fromPlain_LogootSBlock
     (PObject [(''idInterval'', PObject [(''base'', PArray [PObject [(''random'', PNonInteger),
          (''replicaNumber'', PNumber 1), (''clock'', PNumber 10), (''offset'', PNumber 0)]]),
          (''begin'', PNumber 0), (''end'', PNumber 4)]), (''nbElement'', PNumber 5)])
    = None
  \<and> fromPlain_LogootSBlock
     (PObject [(''idInterval'', PObject [(''base'', PArray [PObject [(''random'', PNumber 42),
          (''replicaNumber'', PNumber 1), (''clock'', PNumber 10), (''offset'', PNumber 0)]]),
          (''begin'', PNumber 0), (''end'', PNumber 4)]), (''nbElement'', PNumber (- 1))])
    = None
  \<and> fromPlain_RenamingMap
     (PObject [(''replicaNumber'', PNumber 1), (''clock'', PNumber 0), (''renamedIdIntervals'', PArray [])])
    = None
  \<and> fromPlain_RenamingMap
     (PObject [(''replicaNumber'', PNumber 1), (''clock'', PNumber 0), (''renamedIdIntervals'', PArray [PObject [(''base'', PArray [PObject [(''random'', PNumber 42),
          (''replicaNumber'', PNumber 1), (''clock'', PNumber 10), (''offset'', PNumber 0)]]),
          (''begin'', PNumber 0), (''end'', PNumber 4)], PNull])])
    = None"
  by (simp add: fromPlain_LogootSBlock_def fromPlain_RenamingMap_def fromPlain_interval_def fromPlain_tuple_def
      getProp_def isObject_def isInt32_plain_def numberOf_def isInt32_def INT32_BOTTOM_def INT32_TOP_def newLogootSBlock_def)


section \<open>Intervals and indexes\<close>

lemma fromBase_fromBase [simp]: "fromBase (fromBase a x) y = fromBase a y"
  by (simp add: fromBase_def fromBase_tuple_def)

lemma length_fromBase [simp]: "length (fromBase a x) = length (butlast a) + 1"
  by (simp add: fromBase_def)

lemma length_fromBase_ne: "a \<noteq> [] \<Longrightarrow> length (fromBase a x) = length a"
  by (simp add: fromBase_def)

lemma fromBase_ne [simp]: "fromBase a x \<noteq> []"
  by (simp add: fromBase_def)

lemma lastOffset_fromBase [simp]: "lastOffset (fromBase a x) = x"
  by (simp add: lastOffset_def fromBase_def fromBase_tuple_def)

lemma length_toIds: "wellFormedInterval iv \<Longrightarrow> length (toIds iv) = nat (length_iv iv)"
  by (simp add: toIds_def length_iv_def)

lemma length_iv_pos: "wellFormedInterval iv \<Longrightarrow> 0 < length_iv iv"
  by (simp add: wellFormedInterval_def length_iv_def)

lemma nth_toIds:
  "0 \<le> k \<Longrightarrow> k < length_iv iv \<Longrightarrow> toIds iv ! nat k = fromBase (base iv) (ibegin iv + k)"
  by (simp add: toIds_def length_iv_def nth_upto)

lemma length_pushIndexes [simp]: "length (pushIndexes k ivs) = length ivs"
  by (induction ivs arbitrary: k) simp_all

lemma pushIndexes_Suc:
  "Suc t < length ivs \<Longrightarrow>
     pushIndexes k ivs ! Suc t = pushIndexes k ivs ! t + length_iv (ivs ! t)"
proof (induction ivs arbitrary: k t)
  case Nil
  then show ?case by simp
next
  case (Cons iv ivs)
  show ?case
  proof (cases t)
    case 0
    with Cons.prems show ?thesis by (cases ivs) simp_all
  next
    case (Suc t')
    with Cons.prems have "Suc t' < length ivs" by simp
    from Cons.IH [OF this] Suc show ?thesis by simp
  qed
qed

lemma pushIndexes_0: "ivs \<noteq> [] \<Longrightarrow> pushIndexes k ivs ! 0 = k"
  by (cases ivs) simp_all

lemma pushIndexes_mono:
  "list_all wellFormedInterval ivs \<Longrightarrow> i < j \<Longrightarrow> j < length ivs \<Longrightarrow>
     pushIndexes k ivs ! i + length_iv (ivs ! i) \<le> pushIndexes k ivs ! j"
proof (induction j)
  case 0
  then show ?case by simp
next
  case (Suc j)
  have step: "pushIndexes k ivs ! Suc j = pushIndexes k ivs ! j + length_iv (ivs ! j)"
    using Suc.prems by (simp add: pushIndexes_Suc)
  show ?case
  proof (cases "i = j")
    case True
    with step show ?thesis by simp
  next
    case False
    with Suc.prems have "i < j" "j < length ivs" by simp_all
    from Suc.IH [OF Suc.prems(1) this]
    have "pushIndexes k ivs ! i + length_iv (ivs ! i) \<le> pushIndexes k ivs ! j" .
    moreover have "0 < length_iv (ivs ! j)"
      using Suc.prems(1) \<open>j < length ivs\<close> by (simp add: list_all_length length_iv_pos)
    ultimately show ?thesis using step by simp
  qed
qed

lemma lastIndex_concat:
  "list_all wellFormedInterval ivs \<Longrightarrow>
     lastIndex k ivs = k + int (length (concat (map toIds ivs)))"
  by (induction ivs arbitrary: k) (simp_all add: length_toIds length_iv_pos less_imp_le)

lemma position_exists:
  "list_all wellFormedInterval ivs \<Longrightarrow> k \<le> index \<Longrightarrow> index < lastIndex k ivs \<Longrightarrow>
     \<exists>t<length ivs. pushIndexes k ivs ! t \<le> index
        \<and> index < pushIndexes k ivs ! t + length_iv (ivs ! t)"
proof (induction ivs arbitrary: k)
  case Nil
  then show ?case by simp
next
  case (Cons iv ivs)
  show ?case
  proof (cases "index < k + length_iv iv")
    case True
    with Cons.prems(2) have "pushIndexes k (iv # ivs) ! 0 \<le> index
        \<and> index < pushIndexes k (iv # ivs) ! 0 + length_iv ((iv # ivs) ! 0)" by simp
    then show ?thesis by blast
  next
    case False
    with Cons.prems have "list_all wellFormedInterval ivs" "k + length_iv iv \<le> index"
      "index < lastIndex (k + length_iv iv) ivs" by simp_all
    from Cons.IH [OF this] obtain t where "t < length ivs"
      "pushIndexes (k + length_iv iv) ivs ! t \<le> index"
      "index < pushIndexes (k + length_iv iv) ivs ! t + length_iv (ivs ! t)" by blast
    then have "Suc t < length (iv # ivs) \<and> pushIndexes k (iv # ivs) ! Suc t \<le> index
        \<and> index < pushIndexes k (iv # ivs) ! Suc t + length_iv ((iv # ivs) ! Suc t)" by simp
    then show ?thesis by blast
  qed
qed

lemma pushIndexes_lower:
  "list_all wellFormedInterval ivs \<Longrightarrow> t < length ivs \<Longrightarrow> k \<le> pushIndexes k ivs ! t"
proof (induction ivs arbitrary: k t)
  case Nil
  then show ?case by simp
next
  case (Cons iv ivs)
  show ?case
  proof (cases t)
    case 0
    then show ?thesis by simp
  next
    case (Suc t')
    with Cons.prems have "list_all wellFormedInterval ivs" "t' < length ivs" by simp_all
    from Cons.IH [OF this, of "k + length_iv iv"] Cons.prems(1) Suc show ?thesis
      using length_iv_pos [of iv] by simp
  qed
qed

lemma concat_nth_position:
  "list_all wellFormedInterval ivs \<Longrightarrow> t < length ivs \<Longrightarrow>
   pushIndexes k ivs ! t \<le> index \<Longrightarrow> index < pushIndexes k ivs ! t + length_iv (ivs ! t) \<Longrightarrow>
     concat (map toIds ivs) ! nat (index - k) =
       fromBase (base (ivs ! t)) (index - pushIndexes k ivs ! t + ibegin (ivs ! t))"
proof (induction ivs arbitrary: k t)
  case Nil
  then show ?case by simp
next
  case (Cons iv ivs)
  from Cons.prems(1) have wf: "wellFormedInterval iv" and wfs: "list_all wellFormedInterval ivs"
    by simp_all
  show ?case
  proof (cases t)
    case 0
    with Cons.prems have "0 \<le> index - k" "index - k < length_iv iv" by simp_all
    then have "nat (index - k) < length (toIds iv)"
      using wf by (simp add: length_toIds)
    then have "concat (map toIds (iv # ivs)) ! nat (index - k) = toIds iv ! nat (index - k)"
      by (simp add: nth_append)
    also have "\<dots> = fromBase (base iv) (ibegin iv + (index - k))"
      using \<open>0 \<le> index - k\<close> \<open>index - k < length_iv iv\<close> by (rule nth_toIds)
    finally show ?thesis using 0 by (simp add: add.commute)
  next
    case (Suc t')
    with Cons.prems have t': "t' < length ivs"
      and lo: "pushIndexes (k + length_iv iv) ivs ! t' \<le> index"
      and hi: "index < pushIndexes (k + length_iv iv) ivs ! t' + length_iv (ivs ! t')"
      by simp_all
    from pushIndexes_lower [OF wfs t', of "k + length_iv iv"] lo
    have ge: "k + length_iv iv \<le> index" by simp
    then have "\<not> nat (index - k) < length (toIds iv)"
      using wf by (simp add: length_toIds)
    then have "concat (map toIds (iv # ivs)) ! nat (index - k)
               = concat (map toIds ivs) ! (nat (index - k) - length (toIds iv))"
      by (simp add: nth_append)
    also have "nat (index - k) - length (toIds iv) = nat (index - (k + length_iv iv))"
      using wf ge length_iv_pos [OF wf] by (simp add: length_toIds)
    also have "concat (map toIds ivs) ! nat (index - (k + length_iv iv))
           = fromBase (base (ivs ! t'))
               (index - pushIndexes (k + length_iv iv) ivs ! t' + ibegin (ivs ! t'))"
      by (rule Cons.IH [OF wfs t' lo hi])
    finally show ?thesis using Suc by simp
  qed
qed

section \<open>The binary search\<close>

lemma findPositionLoop_found:
  assumes wf: "list_all wellFormedInterval (renamedIdIntervals m)"
    and idx: "indexes m = pushIndexes 0 (renamedIdIntervals m)"
    and t: "t < length (renamedIdIntervals m)"
    and lo: "indexes m ! t \<le> index"
    and hi: "index < indexes m ! t + length_iv (renamedIdIntervals m ! t)"
  shows "l \<le> t \<Longrightarrow> t < r \<Longrightarrow> r \<le> length (renamedIdIntervals m) \<Longrightarrow>
     findPositionLoop m index l r =
       Some (t, index - indexes m ! t + ibegin (renamedIdIntervals m ! t))"
proof (induction "r - l" arbitrary: l r rule: less_induct)
  case less
  let ?mid = "(l + r) div 2"
  from less.prems have lr: "l < r" and mid_r: "?mid < r" and l_mid: "l \<le> ?mid" by simp_all
  with less.prems have mid: "?mid < length (renamedIdIntervals m)" by simp
  have mid_idx: "?mid < length (indexes m)" using mid idx by simp
  consider (right) "?mid < t" | (left) "t < ?mid" | (hit) "?mid = t" by linarith
  then show ?case
  proof cases
    case right
    from pushIndexes_mono [OF wf right t, of 0] lo idx
    have c: "indexes m ! ?mid + length_iv (renamedIdIntervals m ! ?mid) \<le> index" by simp
    have "findPositionLoop m index l r = findPositionLoop m index (?mid + 1) r"
      using lr mid mid_idx c by (subst findPositionLoop.simps) simp
    also have "\<dots> = Some (t, index - indexes m ! t + ibegin (renamedIdIntervals m ! t))"
      using right mid_r l_mid less.prems by (intro less.hyps) simp_all
    finally show ?thesis .
  next
    case left
    from pushIndexes_mono [OF wf left mid, of 0] hi idx
    have c: "index < indexes m ! ?mid" by simp
    have pos: "0 < length_iv (renamedIdIntervals m ! ?mid)"
      using wf mid by (simp add: list_all_length length_iv_pos)
    have "findPositionLoop m index l r = findPositionLoop m index l ?mid"
      using lr mid mid_idx c pos by (subst findPositionLoop.simps) simp
    also have "\<dots> = Some (t, index - indexes m ! t + ibegin (renamedIdIntervals m ! t))"
      using left mid_r l_mid less.prems by (intro less.hyps) simp_all
    finally show ?thesis .
  next
    case hit
    show ?thesis
      using lr mid mid_idx lo hi hit by (subst findPositionLoop.simps) simp
  qed
qed

section \<open>Facts about a well-formed map\<close>

lemma wellFormedMap_new:
  "wellFormedIntervals ivs \<Longrightarrow> wellFormedMap (newRenamingMap rep clk ivs)"
  by (simp add: wellFormedMap_def newRenamingMap_def)

lemma wf_intervals:
  "wellFormedMap m \<Longrightarrow> list_all wellFormedInterval (renamedIdIntervals m)"
  by (simp add: wellFormedMap_def wellFormedIntervals_def)

lemma wf_nonempty: "wellFormedMap m \<Longrightarrow> renamedIdIntervals m \<noteq> []"
  by (simp add: wellFormedMap_def wellFormedIntervals_def)

lemma maxOffset_length:
  "wellFormedMap m \<Longrightarrow> maxOffset m = int (length (renamedIds m)) - 1"
  by (simp add: wellFormedMap_def wellFormedIntervals_def renamedIds_def lastIndex_concat)

lemma toIds_nonempty: "wellFormedInterval iv \<Longrightarrow> toIds iv \<noteq> []"
  using length_toIds [of iv] length_iv_pos [of iv] by auto

lemma renamedIds_nonempty: "wellFormedMap m \<Longrightarrow> renamedIds m \<noteq> []"
proof -
  assume wf: "wellFormedMap m"
  then obtain iv ivs where ivs: "renamedIdIntervals m = iv # ivs"
    using wf_nonempty by (cases "renamedIdIntervals m") auto
  with wf_intervals [OF wf] have "toIds iv \<noteq> []" by (simp add: toIds_nonempty)
  with ivs show ?thesis by (simp add: renamedIds_def)
qed

lemma maxOffset_nonneg: "wellFormedMap m \<Longrightarrow> 0 \<le> maxOffset m"
  using renamedIds_nonempty [of m] by (cases "renamedIds m") (simp_all add: maxOffset_length)

lemma hd_toIds: "wellFormedInterval iv \<Longrightarrow> hd (toIds iv) = idBegin iv"
proof -
  assume wf: "wellFormedInterval iv"
  then have "toIds iv ! nat 0 = fromBase (base iv) (ibegin iv + 0)"
    by (intro nth_toIds) (simp_all add: length_iv_pos)
  then show ?thesis using toIds_nonempty [OF wf] by (simp add: hd_conv_nth idBegin_def)
qed

lemma last_toIds: "wellFormedInterval iv \<Longrightarrow> last (toIds iv) = idEnd iv"
proof -
  assume wf: "wellFormedInterval iv"
  then have "toIds iv ! nat (length_iv iv - 1) = fromBase (base iv) (ibegin iv + (length_iv iv - 1))"
    by (intro nth_toIds) (simp_all add: length_iv_pos)
  moreover have "nat (length_iv iv - 1) = length (toIds iv) - 1"
    using wf by (simp add: length_toIds nat_diff_distrib' length_iv_pos less_imp_le)
  ultimately show ?thesis using toIds_nonempty [OF wf]
    by (simp add: last_conv_nth idEnd_def length_iv_def)
qed

lemma firstId_hd: "wellFormedMap m \<Longrightarrow> firstId m = hd (renamedIds m)"
proof -
  assume wf: "wellFormedMap m"
  then obtain iv ivs where ivs: "renamedIdIntervals m = iv # ivs"
    using wf_nonempty by (cases "renamedIdIntervals m") auto
  with wf_intervals [OF wf] have iv: "wellFormedInterval iv" by simp
  from toIds_nonempty [OF iv] hd_toIds [OF iv] ivs show ?thesis
    by (simp add: firstId_def renamedIds_def)
qed

lemma lastId_last: "wellFormedMap m \<Longrightarrow> lastId m = last (renamedIds m)"
proof -
  assume wf: "wellFormedMap m"
  from wf_nonempty [OF wf] obtain ivs iv where ivs: "renamedIdIntervals m = ivs @ [iv]"
    by (cases "renamedIdIntervals m" rule: rev_cases) auto
  with wf_intervals [OF wf] have iv: "wellFormedInterval iv" by simp
  from toIds_nonempty [OF iv] last_toIds [OF iv] ivs show ?thesis
    by (simp add: lastId_def renamedIds_def)
qed

lemma renamedIds_wf:
  "wellFormedMap m \<Longrightarrow> x \<in> set (renamedIds m) \<Longrightarrow> x \<noteq> []"
  by (auto simp: renamedIds_def toIds_def)

lemma position_of_index:
  assumes wf: "wellFormedMap m" and lo: "0 \<le> index" and hi: "index \<le> maxOffset m"
  obtains t where "t < length (renamedIdIntervals m)"
    and "indexes m ! t \<le> index"
    and "index < indexes m ! t + length_iv (renamedIdIntervals m ! t)"
    and "findPositionFromIndex m index =
           Some (t, index - indexes m ! t + ibegin (renamedIdIntervals m ! t))"
    and "renamedIds m ! nat index =
           fromBase (base (renamedIdIntervals m ! t))
             (index - indexes m ! t + ibegin (renamedIdIntervals m ! t))"
proof -
  from wf have idx: "indexes m = pushIndexes 0 (renamedIdIntervals m)"
    and mx: "maxOffset m = lastIndex 0 (renamedIdIntervals m) - 1"
    by (simp_all add: wellFormedMap_def)
  from hi mx have "index < lastIndex 0 (renamedIdIntervals m)" by simp
  from position_exists [OF wf_intervals [OF wf] lo this] idx
  obtain t where t: "t < length (renamedIdIntervals m)"
    and l: "indexes m ! t \<le> index"
    and h: "index < indexes m ! t + length_iv (renamedIdIntervals m ! t)" by auto
  have "findPositionFromIndex m index =
           Some (t, index - indexes m ! t + ibegin (renamedIdIntervals m ! t))"
    unfolding findPositionFromIndex_def
    using t by (intro findPositionLoop_found [OF wf_intervals [OF wf] idx t l h]) simp_all
  moreover have "renamedIds m ! nat index =
           fromBase (base (renamedIdIntervals m ! t))
             (index - indexes m ! t + ibegin (renamedIdIntervals m ! t))"
    using concat_nth_position [OF wf_intervals [OF wf] t, of 0 index] l h idx
    by (simp add: renamedIds_def)
  ultimately show ?thesis using that t l h by blast
qed

lemma findIdFromIndex_nth:
  assumes "wellFormedMap m" and "0 \<le> index" and "index \<le> maxOffset m"
  shows "findIdFromIndex m index = Some (renamedIds m ! nat index)"
proof -
  from assms obtain t where
    "findPositionFromIndex m index =
       Some (t, index - indexes m ! t + ibegin (renamedIdIntervals m ! t))"
    "renamedIds m ! nat index =
       fromBase (base (renamedIdIntervals m ! t))
         (index - indexes m ! t + ibegin (renamedIdIntervals m ! t))"
    by (rule position_of_index)
  then show ?thesis by (simp add: findIdFromIndex_def idBegin_def)
qed

lemma findPredecessorAndSuccessor_nth:
  assumes wf: "wellFormedMap m" and lo: "0 \<le> index" and hi: "index < maxOffset m"
  shows "findPredecessorAndSuccessorFromIndex m index =
           Some (renamedIds m ! nat index, renamedIds m ! nat (index + 1))"
proof -
  let ?ivs = "renamedIdIntervals m"
  from wf have idx: "indexes m = pushIndexes 0 ?ivs" by (simp add: wellFormedMap_def)
  from hi have hi0: "index \<le> maxOffset m" and lo1: "0 \<le> index + 1"
    and hi1: "index + 1 \<le> maxOffset m" using lo by simp_all
  from wf lo hi0 obtain t where t: "t < length ?ivs"
    and l: "indexes m ! t \<le> index"
    and h: "index < indexes m ! t + length_iv (?ivs ! t)"
    and pos: "findPositionFromIndex m index = Some (t, index - indexes m ! t + ibegin (?ivs ! t))"
    and nth: "renamedIds m ! nat index =
               fromBase (base (?ivs ! t)) (index - indexes m ! t + ibegin (?ivs ! t))"
    by (rule position_of_index)
  from wf lo1 hi1 obtain t' where t': "t' < length ?ivs"
    and l': "indexes m ! t' \<le> index + 1"
    and h': "index + 1 < indexes m ! t' + length_iv (?ivs ! t')"
    and nth': "renamedIds m ! nat (index + 1) =
               fromBase (base (?ivs ! t')) (index + 1 - indexes m ! t' + ibegin (?ivs ! t'))"
    by (rule position_of_index)
  let ?off = "index - indexes m ! t + ibegin (?ivs ! t)"
  show ?thesis
  proof (cases "?off = iend (?ivs ! t)")
    case False
    with h have "index + 1 < indexes m ! t + length_iv (?ivs ! t)"
      by (simp add: length_iv_def)
    have "t' = t"
    proof (rule ccontr)
      assume "t' \<noteq> t"
      then consider "t' < t" | "t < t'" by linarith
      then show False
      proof cases
        case 1
        from pushIndexes_mono [OF wf_intervals [OF wf] 1 t, of 0] idx h' l show False by simp
      next
        case 2
        from pushIndexes_mono [OF wf_intervals [OF wf] 2 t', of 0] idx l'
          \<open>index + 1 < indexes m ! t + length_iv (?ivs ! t)\<close> show False by simp
      qed
    qed
    with nth' have "renamedIds m ! nat (index + 1) = fromBase (base (?ivs ! t)) (?off + 1)"
      by (simp add: algebra_simps)
    with pos nth False show ?thesis
      by (simp add: findPredecessorAndSuccessorFromIndex_def Let_def idBegin_def)
  next
    case True
    then have eq: "index + 1 = indexes m ! t + length_iv (?ivs ! t)"
      by (simp add: length_iv_def)
    have "t < t'"
    proof (rule ccontr)
      assume "\<not> t < t'"
      then consider "t' < t" | "t' = t" by linarith
      then show False
      proof cases
        case 1
        from pushIndexes_mono [OF wf_intervals [OF wf] 1 t, of 0] idx h' l show False by simp
      next
        case 2
        with h' eq show False by simp
      qed
    qed
    then have St: "Suc t < length ?ivs" using t' by simp
    have "t' = Suc t"
    proof (rule ccontr)
      assume "t' \<noteq> Suc t"
      with \<open>t < t'\<close> have "Suc t < t'" by simp
      from pushIndexes_mono [OF wf_intervals [OF wf] this t', of 0] idx l'
        pushIndexes_Suc [OF St, of 0] eq
      have "indexes m ! Suc t + length_iv (?ivs ! Suc t) \<le> indexes m ! Suc t" by simp
      moreover have "0 < length_iv (?ivs ! Suc t)"
        using wf_intervals [OF wf] St by (simp add: list_all_length length_iv_pos)
      ultimately show False by simp
    qed
    with nth' pushIndexes_Suc [OF St, of 0] idx eq
    have "renamedIds m ! nat (index + 1) = idBegin (?ivs ! Suc t)"
      by (simp add: idBegin_def)
    with pos nth True St show ?thesis
      by (simp add: findPredecessorAndSuccessorFromIndex_def Let_def idBegin_def)
  qed
qed


section \<open>The index loop of renameIds\<close>

lemma advanceIndex_bounds:
  "currentIndex \<le> int (length rs) - 1 \<Longrightarrow>
     currentIndex \<le> advanceIndex rs i currentIndex
     \<and> advanceIndex rs i currentIndex \<le> int (length rs) - 1"
proof (induction rs i currentIndex rule: advanceIndex.induct)
  case (1 rs i currentIndex)
  show ?case
  proof (cases "currentIndex < int (length rs) - 1
                 \<and> compareTo i (rs ! nat (currentIndex + 1)) \<noteq> Less")
    case True
    with "1.IH" have "currentIndex + 1 \<le> advanceIndex rs i (currentIndex + 1)
        \<and> advanceIndex rs i (currentIndex + 1) \<le> int (length rs) - 1" by simp
    with True show ?thesis by (subst (1 2) advanceIndex.simps) simp
  next
    case False
    with "1.prems" show ?thesis by (subst (1 2) advanceIndex.simps) auto
  qed
qed

lemma advanceIndex_stop:
  "advanceIndex rs i currentIndex < int (length rs) - 1 \<Longrightarrow>
     i < rs ! nat (advanceIndex rs i currentIndex + 1)"
proof (induction rs i currentIndex rule: advanceIndex.induct)
  case (1 rs i currentIndex)
  show ?case
  proof (cases "currentIndex < int (length rs) - 1
                 \<and> compareTo i (rs ! nat (currentIndex + 1)) \<noteq> Less")
    case True
    then have eq: "advanceIndex rs i currentIndex = advanceIndex rs i (currentIndex + 1)"
      by (subst advanceIndex.simps) simp
    with "1.IH" True "1.prems" show ?thesis by simp
  next
    case False
    then have eq: "advanceIndex rs i currentIndex = currentIndex"
      by (subst advanceIndex.simps) auto
    with False "1.prems" show ?thesis by simp
  qed
qed

lemma advanceIndex_passed:
  "- 1 \<le> currentIndex \<Longrightarrow> currentIndex < k \<Longrightarrow> k \<le> advanceIndex rs i currentIndex \<Longrightarrow>
     rs ! nat k \<le> i"
proof (induction rs i currentIndex rule: advanceIndex.induct)
  case (1 rs i currentIndex)
  show ?case
  proof (cases "currentIndex < int (length rs) - 1
                 \<and> compareTo i (rs ! nat (currentIndex + 1)) \<noteq> Less")
    case True
    then have eq: "advanceIndex rs i currentIndex = advanceIndex rs i (currentIndex + 1)"
      by (subst advanceIndex.simps) simp
    show ?thesis
    proof (cases "k = currentIndex + 1")
      case True
      with \<open>currentIndex < int (length rs) - 1
                 \<and> compareTo i (rs ! nat (currentIndex + 1)) \<noteq> Less\<close>
      show ?thesis by (simp add: not_less)
    next
      case False
      with "1.prems" eq True "1.IH" show ?thesis by simp
    qed
  next
    case False
    then have eq: "advanceIndex rs i currentIndex = currentIndex"
      by (subst advanceIndex.simps) auto
    with "1.prems" show ?thesis by simp
  qed
qed

lemma advanceIndex_first:
  "rs \<noteq> [] \<Longrightarrow> (advanceIndex rs i (- 1) = - 1) = (i < rs ! 0)"
proof -
  assume ne: "rs \<noteq> []"
  show ?thesis
  proof (cases "i < rs ! 0")
    case True
    then show ?thesis by (subst advanceIndex.simps) simp
  next
    case False
    then have "advanceIndex rs i (- 1) = advanceIndex rs i 0"
      using ne by (subst advanceIndex.simps) simp
    moreover have "0 \<le> advanceIndex rs i 0"
      using advanceIndex_bounds [of 0 rs i] ne by (cases rs) simp_all
    ultimately show ?thesis using False by simp
  qed
qed

text \<open>In an ascending list the loop stops at the one index whose identifier is at most
  the one to rename and whose successor is above it.\<close>

lemma ascending_nth_less:
  "ascending rs \<Longrightarrow> a < b \<Longrightarrow> b < length rs \<Longrightarrow> rs ! a < rs ! b"
  by (simp add: ascending_def sorted_wrt_iff_nth_less)

lemma advanceIndex_unique:
  assumes asc: "ascending rs" and j: "0 \<le> j" "j < int (length rs)"
    and lo: "rs ! nat j \<le> i" and hi: "j < int (length rs) - 1 \<longrightarrow> i < rs ! nat (j + 1)"
  shows "advanceIndex rs i (- 1) = j"
proof -
  let ?a = "advanceIndex rs i (- 1)"
  from j have ne: "rs \<noteq> []" by auto
  have b: "- 1 \<le> ?a" "?a \<le> int (length rs) - 1"
    using advanceIndex_bounds [of "- 1" rs i] by simp_all
  show ?thesis
  proof (rule ccontr)
    assume "?a \<noteq> j"
    then consider "?a < j" | "j < ?a" by linarith
    then show False
    proof cases
      case 1
      with j have "?a < int (length rs) - 1" by simp
      from advanceIndex_stop [OF this] have "i < rs ! nat (?a + 1)" .
      moreover have "rs ! nat (?a + 1) \<le> rs ! nat j"
      proof (cases "?a + 1 = j")
        case True
        then show ?thesis by simp
      next
        case False
        with 1 b have "nat (?a + 1) < nat j" by simp
        moreover have "nat j < length rs" using j by simp
        ultimately have "rs ! nat (?a + 1) < rs ! nat j" by (rule ascending_nth_less [OF asc])
        then show ?thesis by simp
      qed
      ultimately show False using lo by simp
    next
      case 2
      with b have "j < int (length rs) - 1" by simp
      with hi have "i < rs ! nat (j + 1)" by simp
      moreover have "rs ! nat (j + 1) \<le> rs ! nat ?a"
      proof (cases "j + 1 = ?a")
        case True
        then show ?thesis by simp
      next
        case False
        with 2 j have "nat (j + 1) < nat ?a" by simp
        moreover have "nat ?a < length rs" using b ne by (cases rs) auto
        ultimately have "rs ! nat (j + 1) < rs ! nat ?a" by (rule ascending_nth_less [OF asc])
        then show ?thesis by simp
      qed
      moreover have "rs ! nat ?a \<le> i"
        using advanceIndex_passed [of "- 1" ?a rs i] 2 j by simp
      ultimately show False by simp
    qed
  qed
qed

lemma initRenameSeq_single:
  "initRenameSeq m [i] =
     map_option (\<lambda>r. [r]) (renameAt m (renamedIds m) i (advanceIndex (renamedIds m) i (- 1)))"
  by (simp add: initRenameSeq_def renameIds_def split: option.splits)


section \<open>The order of identifiers\<close>

lemma less_append_same [simp]: "(a @ x < a @ y) = (x < (y :: Identifier))"
  by (induction a) simp_all

lemma less_append_self [simp]: "(a < a @ x) = (x \<noteq> ([] :: Identifier))"
  using less_append_same [of a "[]" x] by (cases x) simp_all

lemma not_append_less_self [simp]: "\<not> a @ x < (a :: Identifier)"
  using less_append_same [of a x "[]"] by simp

lemma isPrefix_decompose:
  "length p + 1 < length i \<Longrightarrow> isPrefix p i \<Longrightarrow>
     i = p @ [i ! length p] @ getTail i (length p + 1)"
proof -
  assume len: "length p + 1 < length i" and pre: "isPrefix p i"
  then have "take (length p) i = p" by (simp add: isPrefix_def)
  moreover have "i = take (length p) i @ i ! length p # drop (Suc (length p)) i"
    using len by (intro id_take_nth_drop) simp
  ultimately show ?thesis by (simp add: getTail_def)
qed

section \<open>Renaming one identifier\<close>

lemma createAtPosition_simps [simp]:
  "fromBase (createAtPosition rep clk rnd off) x = createAtPosition rep clk rnd x"
  "lastOffset (createAtPosition rep clk rnd off) = off"
  "length (createAtPosition rep clk rnd off) = 1"
  "hd (createAtPosition rep clk rnd off) = IdentifierTuple rnd rep clk off"
  by (simp_all add: createAtPosition_def fromBase_def fromBase_tuple_def lastOffset_def)

lemma createAtPosition_less [simp]:
  "(createAtPosition rep clk rnd a < createAtPosition rep clk rnd b) = (a < b)"
  "(createAtPosition rep clk rnd a @ x < createAtPosition rep clk rnd b) = (a < b)"
  "(createAtPosition rep clk rnd a < createAtPosition rep clk rnd b @ y) =
     (a < b \<or> a = b \<and> y \<noteq> [])"
  by (cases y; auto simp: createAtPosition_def less_tuple_iff)+

lemma rename_below:
  assumes "wellFormedMap m" and "i < firstId m"
  shows "initRenameSeq m [i] = Some [renameIdLessThanFirstId m i]"
proof -
  have "advanceIndex (renamedIds m) i (- 1) = - 1"
    using assms renamedIds_nonempty [OF assms(1)]
    by (simp add: advanceIndex_first firstId_hd hd_conv_nth)
  then show ?thesis
    using wf_nonempty [OF assms(1)] by (simp add: initRenameSeq_single renameAt_def)
qed

lemma rename_renamed:
  assumes wf: "wellFormedMap m"
    and j: "advanceIndex (renamedIds m) i (- 1) = j" and eq: "0 \<le> j" "renamedIds m ! nat j = i"
  shows "initRenameSeq m [i] = Some [renameIdFromIndex m j]"
proof -
  have "j \<le> int (length (renamedIds m)) - 1"
    using advanceIndex_bounds [of "- 1" "renamedIds m" i] j by simp
  then show ?thesis
    using wf_nonempty [OF wf] j eq by (simp add: initRenameSeq_single renameAt_def)
qed

lemma rename_between:
  assumes wf: "wellFormedMap m"
    and j: "advanceIndex (renamedIds m) i (- 1) = j"
    and rng: "0 \<le> j" "j < int (length (renamedIds m)) - 1" and ne: "renamedIds m ! nat j \<noteq> i"
  shows "initRenameSeq m [i] =
     map_option (\<lambda>r. [r]) (renameIdFromPredecessorId m i (renamedIds m ! nat j) j)"
  using wf_nonempty [OF wf] j rng ne by (simp add: initRenameSeq_single renameAt_def)

lemma rename_above:
  assumes wf: "wellFormedMap m"
    and j: "advanceIndex (renamedIds m) i (- 1) = int (length (renamedIds m)) - 1"
    and ne: "last (renamedIds m) \<noteq> i"
  shows "initRenameSeq m [i] = Some [renameIdGreaterThanLastId m i]"
proof -
  from renamedIds_nonempty [OF wf]
  have "renamedIds m ! nat (int (length (renamedIds m)) - 1) = last (renamedIds m)"
    by (simp add: last_conv_nth nat_diff_distrib')
  moreover have "int (length (renamedIds m)) - 1 \<noteq> - 1"
    using renamedIds_nonempty [OF wf] by simp
  ultimately show ?thesis
    using wf_nonempty [OF wf] j ne by (simp add: initRenameSeq_single renameAt_def)
qed

lemma renameIdFromPredecessorId_cases:
  assumes wf: "wellFormedMap m" and rng: "0 \<le> j" "j < maxOffset m"
  shows "renameIdFromPredecessorId m i (renamedIds m ! nat j) j =
     Some (renameIdFromIndex m j @
       (if afterMinTuple (renamedIds m ! nat j) i
        then getTail i (length (renamedIds m ! nat j) + 1)
        else if beforeMaxTuple (renamedIds m ! nat (j + 1)) i
        then getTail i (length (renamedIds m ! nat (j + 1)) + 1)
        else i))"
proof -
  have "findIdFromIndex m (j + 1) = Some (renamedIds m ! nat (j + 1))"
    using rng by (intro findIdFromIndex_nth [OF wf]) simp_all
  then show ?thesis
    by (simp add: renameIdFromPredecessorId_def afterMinTuple_def beforeMaxTuple_def
        renameIdFromIndex_def concat_id_def Let_def)
qed

section \<open>Reverse renaming of an identifier below a renamed one\<close>

lemma equalsBase_length: "equalsBase a b \<Longrightarrow> length a = length b"
  by (simp add: equalsBase_def)

lemma reverseRenameId_inside:
  assumes wf: "wellFormedMap m" and rng: "0 \<le> j" "j < maxOffset m" and x: "x \<noteq> []"
  shows "reverseRenameId m (renameIdFromIndex m j @ x) =
     Some (if x < renamedIds m ! nat j then renamedIds m ! nat j @ [MIN_TUPLE] @ x
           else if renamedIds m ! nat (j + 1) < x
           then fromBase (renamedIds m ! nat (j + 1))
                  (lastOffset (renamedIds m ! nat (j + 1)) - 1) @ [MAX_TUPLE] @ x
           else x)"
proof -
  let ?r = "renameIdFromIndex m j @ x"
  have nhr: "\<not> hasBeenRenamed m ?r"
    using x equalsBase_length [of ?r "newFirstId m"]
    by (auto simp: hasBeenRenamed_def renameIdFromIndex_def newFirstId_def)
  have a: "\<not> ?r < firstId m" if "firstId m < fromBase (newFirstId m) (lastOffset (newFirstId m) - 1)"
  proof -
    have "fromBase (newFirstId m) (lastOffset (newFirstId m) - 1) < ?r"
      using rng by (simp add: newFirstId_def renameIdFromIndex_def)
    with that show ?thesis by simp
  qed
  have b: "\<not> ?r < fromBase (newFirstId m) (lastOffset (newFirstId m) - 1)"
    using rng by (simp add: newFirstId_def renameIdFromIndex_def not_less less_imp_le)
  have c: "?r < newLastId m"
    using rng by (simp add: newLastId_def renameIdFromIndex_def)
  have d: "\<not> lastId m < ?r" if "newLastId m < lastId m"
    using c that by simp
  have e: "\<not> fromBase (newLastId m) (lastOffset (newLastId m) + 1) < ?r"
    using rng by (simp add: newLastId_def renameIdFromIndex_def not_less less_imp_le)
  have f: "\<not> ?r < newFirstId m"
    using rng x by (simp add: newFirstId_def renameIdFromIndex_def not_less less_imp_le)
  have g: "\<not> newLastId m < ?r" using c by simp
  have h: "offset (hd ?r) = j" "getTail ?r 1 = x"
    by (simp_all add: renameIdFromIndex_def createAtPosition_def getTail_def)
  have ps: "findPredecessorAndSuccessorFromIndex m j =
           Some (renamedIds m ! nat j, renamedIds m ! nat (j + 1))"
    using rng by (intro findPredecessorAndSuccessor_nth [OF wf])
  show ?thesis
    unfolding reverseRenameId_def Let_def
    using wf_nonempty [OF wf] nhr a b d e f g h ps
    by (simp del: append_assoc)
qed


section \<open>Round trip\<close>

lemma hasBeenRenamed_new:
  "0 \<le> j \<Longrightarrow> j \<le> maxOffset m \<Longrightarrow> hasBeenRenamed m (renameIdFromIndex m j)"
  by (simp add: hasBeenRenamed_def renameIdFromIndex_def newFirstId_def equalsBase_def
      createAtPosition_def equalsBase_tuple_def lastOffset_def)

lemma reverseRenameId_new:
  assumes "wellFormedMap m" and "0 \<le> j" and "j \<le> maxOffset m"
  shows "reverseRenameId m (renameIdFromIndex m j) = Some (renamedIds m ! nat j)"
  using assms wf_nonempty [OF assms(1)] hasBeenRenamed_new [of j m]
    findIdFromIndex_nth [OF assms]
  by (simp add: reverseRenameId_def renameIdFromIndex_def)

lemma nth_renamedIds_ne:
  "wellFormedMap m \<Longrightarrow> 0 \<le> j \<Longrightarrow> j \<le> maxOffset m \<Longrightarrow> renamedIds m ! nat j \<noteq> []"
  by (rule renamedIds_wf [where m = m]) (simp_all add: maxOffset_length)

lemma roundtrip_wellFormed:
  assumes wf: "wellFormedMap m" and lo: "firstId m \<le> i" and hi: "i \<le> lastId m"
  shows "\<exists>r. initRenameSeq m [i] = Some [r] \<and> reverseRenameId m r = Some i"
proof -
  let ?rs = "renamedIds m"
  let ?j = "advanceIndex ?rs i (- 1)"
  have ne: "?rs \<noteq> []" by (rule renamedIds_nonempty [OF wf])
  have mx: "maxOffset m = int (length ?rs) - 1" by (rule maxOffset_length [OF wf])
  have "\<not> i < ?rs ! 0" using lo ne by (simp add: firstId_hd [OF wf] hd_conv_nth)
  then have "?j \<noteq> - 1" using ne by (simp add: advanceIndex_first)
  moreover have b: "- 1 \<le> ?j" "?j \<le> int (length ?rs) - 1"
    using advanceIndex_bounds [of "- 1" ?rs i] by simp_all
  ultimately have j0: "0 \<le> ?j" by simp
  have passed: "?rs ! nat ?j \<le> i"
    using advanceIndex_passed [of "- 1" ?j ?rs i] j0 by simp
  show ?thesis
  proof (cases "?rs ! nat ?j = i")
    case True
    from rename_renamed [OF wf refl j0 True]
    have "initRenameSeq m [i] = Some [renameIdFromIndex m ?j]" .
    moreover have "reverseRenameId m (renameIdFromIndex m ?j) = Some i"
      using reverseRenameId_new [OF wf j0] b mx True by simp
    ultimately show ?thesis by blast
  next
    case False
    with passed have pred: "?rs ! nat ?j < i" by simp
    have "?j \<noteq> int (length ?rs) - 1"
    proof
      assume "?j = int (length ?rs) - 1"
      with ne have "?rs ! nat ?j = last ?rs"
        by (simp add: last_conv_nth nat_diff_distrib')
      with pred hi show False by (simp add: lastId_last [OF wf])
    qed
    with b have jn: "?j < int (length ?rs) - 1" by simp
    then have jm: "?j < maxOffset m" using mx by simp
    from advanceIndex_stop [OF jn] have succ: "i < ?rs ! nat (?j + 1)" .
    let ?p = "?rs ! nat ?j" and ?s = "?rs ! nat (?j + 1)"
    let ?x = "if afterMinTuple ?p i then getTail i (length ?p + 1)
              else if beforeMaxTuple ?s i then getTail i (length ?s + 1) else i"
    have ren: "initRenameSeq m [i] = Some [renameIdFromIndex m ?j @ ?x]"
      using rename_between [OF wf refl j0 jn False]
        renameIdFromPredecessorId_cases [OF wf j0 jm, of i] by simp
    have s_ne: "?s \<noteq> []"
      using nth_renamedIds_ne [OF wf, of "?j + 1"] j0 jm by simp
    have x_ne: "?x \<noteq> []"
      using pred by (auto simp: afterMinTuple_def beforeMaxTuple_def getTail_def)
    have np: "\<not> i < ?p" and ns: "\<not> ?s < i" using pred succ by simp_all
    have "reverseRenameId m (renameIdFromIndex m ?j @ ?x) = Some i"
    proof (cases "afterMinTuple ?p i")
      case True
      let ?t = "getTail i (length ?p + 1)"
      have xeq: "?x = ?t" using True by simp
      have "i = ?p @ [i ! length ?p] @ ?t"
        using True by (intro isPrefix_decompose) (simp_all add: afterMinTuple_def)
      then have dec: "?p @ [MIN_TUPLE] @ ?t = i"
        using True by (simp add: afterMinTuple_def)
      have lt: "?t < ?p" using True by (simp add: afterMinTuple_def)
      have "reverseRenameId m (renameIdFromIndex m ?j @ ?t) = Some (?p @ [MIN_TUPLE] @ ?t)"
        using reverseRenameId_inside [OF wf j0 jm, of ?t] x_ne lt unfolding xeq by simp
      then show ?thesis unfolding xeq dec .
    next
      case nmin: False
      show ?thesis
      proof (cases "beforeMaxTuple ?s i")
        case True
        let ?t = "getTail i (length ?s + 1)"
        let ?c = "fromBase ?s (lastOffset ?s - 1)"
        have xeq: "?x = ?t" using True nmin by simp
        have len: "length ?c = length ?s" using s_ne by (simp add: length_fromBase_ne)
        have "i = ?c @ [i ! length ?c] @ getTail i (length ?c + 1)"
          using True len by (intro isPrefix_decompose) (simp_all add: beforeMaxTuple_def)
        then have dec: "?c @ [MAX_TUPLE] @ ?t = i"
          using True len by (simp add: beforeMaxTuple_def)
        have gt: "?s < ?t" using True by (simp add: beforeMaxTuple_def)
        with pred succ have nlt: "\<not> ?t < ?p" by simp
        have "reverseRenameId m (renameIdFromIndex m ?j @ ?t) = Some (?c @ [MAX_TUPLE] @ ?t)"
          using reverseRenameId_inside [OF wf j0 jm, of ?t] x_ne gt nlt unfolding xeq by simp
        then show ?thesis unfolding xeq dec .
      next
        case False
        have xeq: "?x = i" using False nmin by simp
        have "reverseRenameId m (renameIdFromIndex m ?j @ i) = Some i"
          using reverseRenameId_inside [OF wf j0 jm, of i] x_ne np ns unfolding xeq by simp
        then show ?thesis unfolding xeq .
      qed
    qed
    with ren show ?thesis by blast
  qed
qed


section \<open>What the constructor of the extended map builds\<close>


lemma registerId_fields [simp]:
  "extRenamedIds (registerId e k x) = extRenamedIds e @ [x]"
  "extReplicaNumber (registerId e k x) = extReplicaNumber e"
  "extClock (registerId e k x) = extClock e"
  "newOffsetToOldIdMap (registerId e k x) = (newOffsetToOldIdMap e)(k \<mapsto> x)"
  by (simp_all add: registerId_def Let_def)

lemma registerIds_fields [simp]:
  "extRenamedIds (registerIds e k ids) = extRenamedIds e @ ids"
  "extReplicaNumber (registerIds e k ids) = extReplicaNumber e"
  "extClock (registerIds e k ids) = extClock e"
  "extMaxOffset (registerIds e k ids) = k + int (length ids) - 1"
  by (induction ids arbitrary: e k) simp_all

lemma registerIds_old:
  "0 \<le> j \<Longrightarrow> j < int (length ids) \<Longrightarrow>
     newOffsetToOldIdMap (registerIds e k ids) (k + j) = Some (ids ! nat j)"
proof (induction ids arbitrary: e k j)
  case Nil
  then show ?case by simp
next
  case (Cons x xs)
  have keep: "newOffsetToOldIdMap (registerIds e' k' ys) j' = newOffsetToOldIdMap e' j'"
    if "j' < k'" for e' k' ys j'
    using that by (induction ys arbitrary: e' k') simp_all
  show ?case
  proof (cases "j = 0")
    case True
    then show ?thesis using keep [of k "k + 1" "registerId e k x" xs] by simp
  next
    case False
    with Cons.prems have "0 \<le> j - 1" "j - 1 < int (length xs)" by simp_all
    from Cons.IH [OF this, of "registerId e k x" "k + 1"] False Cons.prems show ?thesis
      by (simp add: nat_diff_distrib')
  qed
qed

lemma lookupOffset_maxOffset [simp]:
  "lookupOffset (e\<lparr>extMaxOffset := k\<rparr>) i = lookupOffset e i"
  by (simp add: lookupOffset_def)



lemma newExtendedRenamingMap_Some:
  "ivs \<noteq> [] \<Longrightarrow> \<exists>e. newExtendedRenamingMap rep clk ivs = Some e"
  by (simp add: newExtendedRenamingMap_def)

text \<open>The extended map built from the intervals of a renaming map.\<close>

lemma extended_fields:
  assumes "newExtendedRenamingMap rep clk ivs = Some e"
    and "m = newRenamingMap rep clk ivs" and "wellFormedIntervals ivs"
  shows "extRenamedIds e = renamedIds m"
    and "extReplicaNumber e = mapReplicaNumber m"
    and "extClock e = mapClock m"
    and "extMaxOffset e = maxOffset m"
    and "extFirstId e = firstId m"
    and "extLastId e = lastId m"
    and "extNewRandom e = newRandom m"
    and "extNewFirstId e = newFirstId m"
    and "extNewLastId e = newLastId m"
proof -
  from assms(3) have wf: "wellFormedMap m" unfolding assms(2) by (rule wellFormedMap_new)
  from assms(1) have e: "e = registerIds
                   \<lparr>extReplicaNumber = rep, extClock = clk, extRenamedIds = [],
                    extMap = Map.empty, newOffsetToOldIdMap = Map.empty, extMaxOffset = 0\<rparr>
                   0 (concat (map toIds ivs))"
    by (simp add: newExtendedRenamingMap_def split: if_splits)
  show ids: "extRenamedIds e = renamedIds m"
    by (simp add: e assms(2) renamedIds_def newRenamingMap_def)
  show rep: "extReplicaNumber e = mapReplicaNumber m"
    and clk: "extClock e = mapClock m"
    by (simp_all add: e assms(2) newRenamingMap_def)
  show mx: "extMaxOffset e = maxOffset m"
    using maxOffset_length [OF wf] ids by (simp add: e)
  show f: "extFirstId e = firstId m"
    by (simp add: extFirstId_def ids firstId_hd [OF wf])
  show "extLastId e = lastId m"
    by (simp add: extLastId_def ids lastId_last [OF wf])
  show r: "extNewRandom e = newRandom m"
    by (simp add: extNewRandom_def newRandom_def f)
  show "extNewFirstId e = newFirstId m"
    by (simp add: extNewFirstId_def newFirstId_def rep clk r)
  show "extNewLastId e = newLastId m"
    by (simp add: extNewLastId_def newLastId_def rep clk r mx)
qed

lemma extended_old:
  assumes "newExtendedRenamingMap rep clk ivs = Some e"
    and "m = newRenamingMap rep clk ivs" and "wellFormedIntervals ivs"
    and "0 \<le> j" and "j \<le> maxOffset m"
  shows "newOffsetToOldIdMap e j = Some (renamedIds m ! nat j)"
proof -
  from assms(3) have wf: "wellFormedMap m" unfolding assms(2) by (rule wellFormedMap_new)
  from assms(1) have e: "e = registerIds
                   \<lparr>extReplicaNumber = rep, extClock = clk, extRenamedIds = [],
                    extMap = Map.empty, newOffsetToOldIdMap = Map.empty, extMaxOffset = 0\<rparr>
                   0 (concat (map toIds ivs))"
    by (simp add: newExtendedRenamingMap_def split: if_splits)
  have "j < int (length (concat (map toIds ivs)))"
    using assms(5) maxOffset_length [OF wf]
    by (simp add: assms(2) renamedIds_def newRenamingMap_def)
  from registerIds_old [OF assms(4) this, of _ 0] show ?thesis
    by (simp add: e assms(2) renamedIds_def newRenamingMap_def)
qed




section \<open>Renaming the renamed identifiers\<close>

lemma renameIdFromIndex_tuple:
  "renameIdFromIndex (newRenamingMap rep clk ivs) k =
     [IdentifierTuple (newRandom (newRenamingMap rep clk ivs)) rep clk k]"
  by (simp add: renameIdFromIndex_def createAtPosition_def newRenamingMap_def)

lemma rename_nth:
  assumes wf: "wellFormedMap m" and asc: "ascending (renamedIds m)"
    and k: "k < length (renamedIds m)"
  shows "initRenameSeq m [renamedIds m ! k] = Some [renameIdFromIndex m (int k)]"
proof -
  have "Suc k < length (renamedIds m) \<Longrightarrow> renamedIds m ! k < renamedIds m ! Suc k"
    by (rule ascending_nth_less [OF asc]) simp_all
  then have "advanceIndex (renamedIds m) (renamedIds m ! k) (- 1) = int k"
    using k by (intro advanceIndex_unique [OF asc]) (auto simp: nat_add_distrib)
  from rename_renamed [OF wf this] show ?thesis by simp
qed

lemma advanceIndex_next:
  assumes asc: "ascending rs" and k: "k < length rs"
  shows "advanceIndex rs (rs ! k) (int k - 1) = int k"
proof -
  have "advanceIndex rs (rs ! k) (int k - 1) = advanceIndex rs (rs ! k) (int k)"
    using k by (subst advanceIndex.simps) simp
  also have "\<dots> = int k"
  proof (cases "Suc k < length rs")
    case True
    from ascending_nth_less [OF asc _ True, of k] have "rs ! k < rs ! Suc k" by simp
    then show ?thesis by (subst advanceIndex.simps) (simp add: nat_add_distrib)
  next
    case False
    then show ?thesis using k by (subst advanceIndex.simps) simp
  qed
  finally show ?thesis .
qed

lemma renameIdsFrom_rest:
  assumes wf: "wellFormedMap m" and asc: "ascending (renamedIds m)"
  shows "k \<le> length (renamedIds m) \<Longrightarrow>
     renameIdsFrom m (renamedIds m) (int k - 1) (drop k (renamedIds m)) =
       Some (map (\<lambda>j. renameIdFromIndex m (int j)) [k..<length (renamedIds m)])"
proof (induction "length (renamedIds m) - k" arbitrary: k)
  case 0
  then show ?case by simp
next
  case (Suc d)
  then have k: "k < length (renamedIds m)" by simp
  have step: "drop k (renamedIds m) = renamedIds m ! k # drop (Suc k) (renamedIds m)"
    using k by (simp add: Cons_nth_drop_Suc)
  have adv: "advanceIndex (renamedIds m) (renamedIds m ! k) (int k - 1) = int k"
    by (rule advanceIndex_next [OF asc k])
  have at: "renameAt m (renamedIds m) (renamedIds m ! k) (int k)
            = Some (renameIdFromIndex m (int k))"
    using wf_nonempty [OF wf] k by (simp add: renameAt_def)
  have rest: "renameIdsFrom m (renamedIds m) (int (Suc k) - 1) (drop (Suc k) (renamedIds m)) =
       Some (map (\<lambda>j. renameIdFromIndex m (int j)) [Suc k..<length (renamedIds m)])"
    using Suc.hyps(2) k by (intro Suc.hyps(1)) simp_all
  show ?case
    unfolding step using adv at rest k by (simp add: upt_conv_Cons)
qed

lemma lastIndex_sum: "lastIndex k ivs = k + sum_list (map length_iv ivs)"
  by (induction ivs arbitrary: k) simp_all

text \<open>
  Claim C7 (new dense offsets), as amended. For every renaming map built from a non-empty
  list of well-formed intervals whose identifiers are in strictly ascending order,
  renaming the renamed identifiers in interval order, all at once or one alone, gives the
  \<open>k\<close>-th of them the single-tuple identifier
  \<open>(newRandom, replicaNumber, clock, k)\<close>; the identifiers number \<open>maxOffset + 1\<close>,
  the sum of the interval lengths, and \<open>newRandom\<close> is the random field of the first
  tuple of the first renamed identifier.
\<close>

theorem renamed_offsets_dense:
  assumes "wellFormedIntervals ivs" and "m = newRenamingMap rep clk ivs"
    and "ascending (renamedIds m)"
  shows "initRenameSeq m (renamedIds m) =
           Some (map (\<lambda>k. [IdentifierTuple (newRandom m) rep clk (int k)])
                   [0..<length (renamedIds m)])
       \<and> (\<forall>k<length (renamedIds m).
             initRenameSeq m [renamedIds m ! k]
               = Some [[IdentifierTuple (newRandom m) rep clk (int k)]])
       \<and> int (length (renamedIds m)) = maxOffset m + 1
       \<and> maxOffset m + 1 = sum_list (map length_iv ivs)
       \<and> newRandom m = random (hd (idBegin (hd ivs)))"
proof -
  from assms(1) have wf: "wellFormedMap m" unfolding assms(2) by (rule wellFormedMap_new)
  have new: "renameIdFromIndex m k = [IdentifierTuple (newRandom m) rep clk k]" for k
    unfolding assms(2) by (rule renameIdFromIndex_tuple)
  have "initRenameSeq m (renamedIds m) =
           Some (map (\<lambda>k. [IdentifierTuple (newRandom m) rep clk (int k)])
                   [0..<length (renamedIds m)])"
    using renameIdsFrom_rest [OF wf assms(3), of 0]
    by (simp add: initRenameSeq_def renameIds_def new)
  moreover have "\<forall>k<length (renamedIds m).
             initRenameSeq m [renamedIds m ! k]
               = Some [[IdentifierTuple (newRandom m) rep clk (int k)]]"
    using rename_nth [OF wf assms(3)] by (simp add: new)
  moreover have "int (length (renamedIds m)) = maxOffset m + 1"
    using maxOffset_length [OF wf] by simp
  moreover have "maxOffset m + 1 = sum_list (map length_iv ivs)"
    by (simp add: assms(2) newRenamingMap_def lastIndex_sum)
  moreover have "newRandom m = random (hd (idBegin (hd ivs)))"
    by (simp add: assms(2) newRandom_def firstId_def newRenamingMap_def)
  ultimately show ?thesis by blast
qed

lemma example_wf: "wellFormedIntervals exampleIntervals"
  by (simp add: wellFormedIntervals_def wellFormedInterval_def exampleIntervals_def)

lemma example_ids:
  "renamedIds (newRenamingMap rep clk exampleIntervals) =
     [[IdentifierTuple 0 5 0 0], [IdentifierTuple 0 5 0 1], [IdentifierTuple 0 5 0 2],
      [IdentifierTuple 10 6 0 0], [IdentifierTuple 10 6 0 1]]"
  by (simp add: renamedIds_def newRenamingMap_def exampleIntervals_def toIds_def
      fromBase_def fromBase_tuple_def upto.simps)

lemma example_asc: "ascending (renamedIds (newRenamingMap rep clk exampleIntervals))"
  by (simp add: example_ids ascending_def less_tuple_iff)

theorem renamed_offsets_dense_witness:
  "wellFormedIntervals exampleIntervals
   \<and> ascending (renamedIds (newRenamingMap 1 0 exampleIntervals))
   \<and> initRenameSeq (newRenamingMap 1 0 exampleIntervals)
       [[IdentifierTuple 0 5 0 0], [IdentifierTuple 0 5 0 1], [IdentifierTuple 0 5 0 2],
        [IdentifierTuple 10 6 0 0], [IdentifierTuple 10 6 0 1]]
     = Some [[IdentifierTuple 0 1 0 0], [IdentifierTuple 0 1 0 1], [IdentifierTuple 0 1 0 2],
        [IdentifierTuple 0 1 0 3], [IdentifierTuple 0 1 0 4]]"
proof -
  have nr: "newRandom (newRenamingMap 1 0 exampleIntervals) = 0"
    by (simp add: newRandom_def firstId_def newRenamingMap_def exampleIntervals_def
        idBegin_def fromBase_def fromBase_tuple_def)
  have up: "[0..<5] = [0, 1, 2, 3, 4]" by (simp add: upt_rec)
  from renamed_offsets_dense [OF example_wf refl example_asc, of 1 0]
  show ?thesis using example_wf example_asc [of 1 0]
    by (simp add: example_ids nr up)
qed

text \<open>
  Without the order the index loop overshoots: with the two single identifiers
  \<open>[(10,6,0,0)]\<close> and \<open>[(0,5,0,0)]\<close> listed in descending order, the loop passes both
  for the first of them, which is then renamed as an identifier above \<open>lastId\<close> and
  comes back unchanged instead of \<open>(10, 1, 0, 0)\<close>.
\<close>

theorem renamed_offsets_dense_counterexample:
  "wellFormedIntervals swappedIntervals
   \<and> renamedIds (newRenamingMap 1 0 swappedIntervals) ! 0 = [IdentifierTuple 10 6 0 0]
   \<and> newRandom (newRenamingMap 1 0 swappedIntervals) = 10
   \<and> initRenameSeq (newRenamingMap 1 0 swappedIntervals) [[IdentifierTuple 10 6 0 0]]
       = Some [[IdentifierTuple 10 6 0 0]]
   \<and> initRenameSeq (newRenamingMap 1 0 swappedIntervals)
        [renamedIds (newRenamingMap 1 0 swappedIntervals) ! 0]
       \<noteq> Some [[IdentifierTuple (newRandom (newRenamingMap 1 0 swappedIntervals)) 1 0 0]]"
  by code_simp

section \<open>Identifiers outside the renamed range\<close>

lemma hasBeenRenamed_iff:
  "hasBeenRenamed m i = (\<exists>k. 0 \<le> k \<and> k \<le> maxOffset m \<and> i = renameIdFromIndex m k)"
proof
  assume h: "hasBeenRenamed m i"
  then have len: "length i = 1" and b: "equalsBase_tuple (last i) (IdentifierTuple (newRandom m) (mapReplicaNumber m) (mapClock m) 0)"
    by (simp_all add: hasBeenRenamed_def equalsBase_def newFirstId_def createAtPosition_def)
  from len obtain t where i: "i = [t]" by (cases i) auto
  with b have "i = renameIdFromIndex m (offset t)"
    by (cases t) (simp add: equalsBase_tuple_def renameIdFromIndex_def createAtPosition_def)
  moreover from h i have "0 \<le> offset t" "offset t \<le> maxOffset m"
    by (simp_all add: hasBeenRenamed_def lastOffset_def)
  ultimately show "\<exists>k. 0 \<le> k \<and> k \<le> maxOffset m \<and> i = renameIdFromIndex m k" by blast
next
  assume "\<exists>k. 0 \<le> k \<and> k \<le> maxOffset m \<and> i = renameIdFromIndex m k"
  then show "hasBeenRenamed m i" using hasBeenRenamed_new by blast
qed

lemma reverseRenameId_outside:
  assumes wf: "wellFormedMap m" and out: "i < minFirstId m \<or> maxLastId m < i"
  shows "reverseRenameId m i = Some i"
proof -
  have "\<not> hasBeenRenamed m i"
  proof
    assume "hasBeenRenamed m i"
    then obtain k where k: "0 \<le> k" "k \<le> maxOffset m" and i: "i = renameIdFromIndex m k"
      unfolding hasBeenRenamed_iff by blast
    have a: "\<not> i < fromBase (newFirstId m) (lastOffset (newFirstId m) - 1)"
      using k by (simp add: i renameIdFromIndex_def newFirstId_def)
    have b: "\<not> fromBase (newLastId m) (lastOffset (newLastId m) + 1) < i"
      using k by (simp add: i renameIdFromIndex_def newLastId_def)
    have c: "i \<le> newLastId m"
      using k by (simp add: i renameIdFromIndex_def newLastId_def not_less [symmetric])
    from out a b c show False
      by (auto simp: minFirstId_def maxLastId_def split: if_splits)
  qed
  with out wf_nonempty [OF wf] show ?thesis
    by (simp add: reverseRenameId_def minFirstId_def maxLastId_def Let_def)
qed

lemma rename_above_last:
  assumes wf: "wellFormedMap m" and asc: "ascending (renamedIds m)" and gt: "lastId m < i"
  shows "initRenameSeq m [i] = Some [renameIdGreaterThanLastId m i]"
proof -
  let ?rs = "renamedIds m"
  have ne: "?rs \<noteq> []" by (rule renamedIds_nonempty [OF wf])
  then have nth: "?rs ! nat (int (length ?rs) - 1) = last ?rs"
    by (simp add: last_conv_nth nat_diff_distrib')
  have "advanceIndex ?rs i (- 1) = int (length ?rs) - 1"
    using ne gt nth by (intro advanceIndex_unique [OF asc]) (simp_all add: lastId_last [OF wf])
  moreover have "last ?rs \<noteq> i" using gt by (simp add: lastId_last [OF wf])
  ultimately show ?thesis by (rule rename_above [OF wf])
qed

text \<open>
  Claim C4 (identifiers outside the renamed range), as amended. An identifier below
  \<open>firstId\<close> is left unchanged by \<open>rename\<close> when it is also below \<open>newFirstId\<close>, and
  is prefixed with the closest predecessor of \<open>newFirstId\<close> otherwise; an identifier
  above \<open>lastId\<close> is left unchanged when it is also above \<open>newLastId\<close>, and is
  prefixed with \<open>newLastId\<close> otherwise (the renamed identifiers being ascending); both
  unless the identifier has the sentinel shape the branch undoes
  (\<open>closestPredecessorOfFirstId + MAX_TUPLE + tail\<close>, or
  \<open>lastId + MIN_TUPLE + tail\<close> when \<open>newLastId < lastId\<close>). \<open>reverseRename\<close> leaves
  unchanged every identifier below \<open>minFirstId\<close> or above \<open>maxLastId\<close>.
\<close>

theorem rename_outside_range:
  assumes "wellFormedIntervals ivs" and "m = newRenamingMap rep clk ivs"
  shows "(i < firstId m
          \<and> \<not> sentinelAfter (fromBase (firstId m) (lastOffset (firstId m) - 1)) MAX_TUPLE i
          \<longrightarrow> initRenameSeq m [i] =
                Some [if i < newFirstId m then i
                      else createAtPosition rep clk (newRandom m) (- 1) @ i])
       \<and> (ascending (renamedIds m) \<and> lastId m < i
          \<and> \<not> (newLastId m < lastId m \<and> sentinelAfter (lastId m) MIN_TUPLE i)
          \<longrightarrow> initRenameSeq m [i] = Some [if newLastId m < i then i else newLastId m @ i])
       \<and> (i < minFirstId m \<or> maxLastId m < i \<longrightarrow> reverseRenameId m i = Some i)"
proof -
  from assms(1) have wf: "wellFormedMap m" unfolding assms(2) by (rule wellFormedMap_new)
  have rc: "mapReplicaNumber m = rep" "mapClock m = clk"
    by (simp_all add: assms(2) newRenamingMap_def)
  have "initRenameSeq m [i] =
          Some [if i < newFirstId m then i
                else createAtPosition rep clk (newRandom m) (- 1) @ i]"
    if "i < firstId m"
      and "\<not> sentinelAfter (fromBase (firstId m) (lastOffset (firstId m) - 1)) MAX_TUPLE i"
    using rename_below [OF wf that(1)] that(2)
    by (auto simp: renameIdLessThanFirstId_def sentinelAfter_def Let_def concat_id_def
        newFirstId_def rc)
  moreover have "initRenameSeq m [i] = Some [if newLastId m < i then i else newLastId m @ i]"
    if "ascending (renamedIds m)" and "lastId m < i"
      and "\<not> (newLastId m < lastId m \<and> sentinelAfter (lastId m) MIN_TUPLE i)"
    using rename_above_last [OF wf that(1,2)] that(3)
    by (auto simp: renameIdGreaterThanLastId_def sentinelAfter_def concat_id_def)
  moreover have "reverseRenameId m i = Some i" if "i < minFirstId m \<or> maxLastId m < i"
    using that by (rule reverseRenameId_outside [OF wf])
  ultimately show ?thesis by blast
qed

theorem rename_outside_range_witness:
  "wellFormedIntervals exampleIntervals
   \<and> [IdentifierTuple (- 3) 2 0 0] < firstId (newRenamingMap 9 0 exampleIntervals)
   \<and> \<not> sentinelAfter
         (fromBase (firstId (newRenamingMap 9 0 exampleIntervals))
            (lastOffset (firstId (newRenamingMap 9 0 exampleIntervals)) - 1))
         MAX_TUPLE [IdentifierTuple (- 3) 2 0 0]
   \<and> initRenameSeq (newRenamingMap 9 0 exampleIntervals) [[IdentifierTuple (- 3) 2 0 0]]
       = Some [[IdentifierTuple (- 3) 2 0 0]]
   \<and> ascending (renamedIds (newRenamingMap 9 0 exampleIntervals))
   \<and> lastId (newRenamingMap 9 0 exampleIntervals) < [IdentifierTuple 12 2 0 0]
   \<and> initRenameSeq (newRenamingMap 9 0 exampleIntervals) [[IdentifierTuple 12 2 0 0]]
       = Some [[IdentifierTuple 12 2 0 0]]
   \<and> [IdentifierTuple (- 3) 2 0 0] < minFirstId (newRenamingMap 9 0 exampleIntervals)
   \<and> reverseRenameId (newRenamingMap 9 0 exampleIntervals) [IdentifierTuple (- 3) 2 0 0]
       = Some [IdentifierTuple (- 3) 2 0 0]"
proof -
  let ?m = "newRenamingMap 9 0 exampleIntervals"
  have a: "[IdentifierTuple (- 3) 2 0 0] < firstId ?m" by code_simp
  have b: "\<not> sentinelAfter (fromBase (firstId ?m) (lastOffset (firstId ?m) - 1))
              MAX_TUPLE [IdentifierTuple (- 3) 2 0 0]" by code_simp
  have c: "[IdentifierTuple (- 3) 2 0 0] < newFirstId ?m" by code_simp
  have d: "lastId ?m < [IdentifierTuple 12 2 0 0]" by code_simp
  have e: "\<not> sentinelAfter (lastId ?m) MIN_TUPLE [IdentifierTuple 12 2 0 0]" by code_simp
  have f: "newLastId ?m < [IdentifierTuple 12 2 0 0]" by code_simp
  have g: "[IdentifierTuple (- 3) 2 0 0] < minFirstId ?m" by code_simp
  from rename_outside_range
      [OF example_wf refl, where rep = 9 and clk = 0 and i = "[IdentifierTuple (- 3) 2 0 0]"]
    rename_outside_range
      [OF example_wf refl, where rep = 9 and clk = 0 and i = "[IdentifierTuple 12 2 0 0]"]
    example_wf example_asc [of 9 0] a b c d e f g
  show ?thesis by simp
qed

text \<open>
  An identifier below \<open>firstId\<close> that is changed: replica 1 renames a sequence that
  starts at \<open>[(0,5,0,0)]\<close>, so \<open>newFirstId = [(0,1,0,0)]\<close>, and \<open>[(0,3,0,0)]\<close> lies
  between the two; it is renamed to \<open>[(0,1,0,-1), (0,3,0,0)]\<close>.
\<close>

theorem rename_outside_range_counterexample:
  "wellFormedIntervals exampleIntervals
   \<and> ascending (renamedIds (newRenamingMap 1 0 exampleIntervals))
   \<and> [IdentifierTuple 0 3 0 0] < firstId (newRenamingMap 1 0 exampleIntervals)
   \<and> initRenameSeq (newRenamingMap 1 0 exampleIntervals) [[IdentifierTuple 0 3 0 0]]
       = Some [[IdentifierTuple 0 1 0 (- 1), IdentifierTuple 0 3 0 0]]
   \<and> initRenameSeq (newRenamingMap 1 0 exampleIntervals) [[IdentifierTuple 0 3 0 0]]
       \<noteq> Some [[IdentifierTuple 0 3 0 0]]"
  by code_simp

section \<open>Identifiers inserted between two renamed ones\<close>

text \<open>
  Claim C5 (concurrent insertions), as amended. Let the renamed identifiers be ascending
  and let \<open>id\<close> lie strictly between the \<open>j\<close>-th and the next of them, so that the
  \<open>j\<close>-th is the greatest renamed identifier below \<open>id\<close>. Then \<open>rename(id)\<close> is
  \<open>rename(predecessorId)\<close> concatenated with \<open>id\<close>, unless \<open>id\<close> has one of the two
  sentinel shapes, \<open>predecessorId + MIN_TUPLE + tail\<close> with \<open>tail < predecessorId\<close> or
  \<open>closestPredecessorOfSuccessorId + MAX_TUPLE + tail\<close> with \<open>successorId < tail\<close>:
  then it is \<open>rename(predecessorId)\<close> concatenated with \<open>tail\<close>.
\<close>

theorem rename_concurrent:
  assumes "wellFormedIntervals ivs" and "m = newRenamingMap rep clk ivs"
    and "ascending (renamedIds m)"
    and "Suc j < length (renamedIds m)"
    and "renamedIds m ! j < i" and "i < renamedIds m ! Suc j"
  shows "(\<forall>x\<in>set (renamedIds m). x < i \<longrightarrow> x \<le> renamedIds m ! j)
       \<and> initRenameSeq m [renamedIds m ! j]
           = Some [[IdentifierTuple (newRandom m) rep clk (int j)]]
       \<and> initRenameSeq m [i] =
           Some [[IdentifierTuple (newRandom m) rep clk (int j)] @
                 (if afterMinTuple (renamedIds m ! j) i
                  then getTail i (length (renamedIds m ! j) + 1)
                  else if beforeMaxTuple (renamedIds m ! Suc j) i
                  then getTail i (length (renamedIds m ! Suc j) + 1)
                  else i)]"
proof -
  let ?rs = "renamedIds m"
  from assms(1) have wf: "wellFormedMap m" unfolding assms(2) by (rule wellFormedMap_new)
  have new: "renameIdFromIndex m k = [IdentifierTuple (newRandom m) rep clk k]" for k
    unfolding assms(2) by (rule renameIdFromIndex_tuple)
  have greatest: "\<forall>x\<in>set ?rs. x < i \<longrightarrow> x \<le> ?rs ! j"
  proof (intro ballI impI)
    fix x assume "x \<in> set ?rs" and lt: "x < i"
    then obtain k where k: "k < length ?rs" and x: "x = ?rs ! k"
      by (auto simp: in_set_conv_nth)
    show "x \<le> ?rs ! j"
    proof (rule ccontr)
      assume "\<not> x \<le> ?rs ! j"
      then have "?rs ! j < ?rs ! k" using x by simp
      then have "j < k"
        using ascending_nth_less [OF assms(3), of k j] assms(4)
        by (cases "k = j"; cases "k < j") auto
      then have "?rs ! Suc j \<le> ?rs ! k"
        using ascending_nth_less [OF assms(3), of "Suc j" k] k by (cases "Suc j = k") auto
      with lt x assms(6) show False by simp
    qed
  qed
  have adv: "advanceIndex ?rs i (- 1) = int j"
    using assms(4,5,6) by (intro advanceIndex_unique [OF assms(3)]) (simp_all add: nat_add_distrib)
  have jm: "int j < maxOffset m" using assms(4) maxOffset_length [OF wf] by simp
  have "initRenameSeq m [i] =
          map_option (\<lambda>r. [r]) (renameIdFromPredecessorId m i (?rs ! nat (int j)) (int j))"
    using assms(4,5) by (intro rename_between [OF wf adv]) simp_all
  then have "initRenameSeq m [i] =
           Some [[IdentifierTuple (newRandom m) rep clk (int j)] @
                 (if afterMinTuple (?rs ! j) i then getTail i (length (?rs ! j) + 1)
                  else if beforeMaxTuple (?rs ! Suc j) i then getTail i (length (?rs ! Suc j) + 1)
                  else i)]"
    using renameIdFromPredecessorId_cases [OF wf _ jm, of i]
    by (simp add: new nat_add_distrib)
  moreover have "initRenameSeq m [?rs ! j] = Some [[IdentifierTuple (newRandom m) rep clk (int j)]]"
    using rename_nth [OF wf assms(3), of j] assms(4) by (simp add: new)
  ultimately show ?thesis using greatest by blast
qed

theorem rename_concurrent_witness:
  "wellFormedIntervals exampleIntervals
   \<and> ascending (renamedIds (newRenamingMap 1 0 exampleIntervals))
   \<and> Suc 1 < length (renamedIds (newRenamingMap 1 0 exampleIntervals))
   \<and> renamedIds (newRenamingMap 1 0 exampleIntervals) ! 1
       < [IdentifierTuple 0 5 0 1, IdentifierTuple 3 7 0 0]
   \<and> [IdentifierTuple 0 5 0 1, IdentifierTuple 3 7 0 0]
       < renamedIds (newRenamingMap 1 0 exampleIntervals) ! Suc 1
   \<and> initRenameSeq (newRenamingMap 1 0 exampleIntervals)
        [[IdentifierTuple 0 5 0 1, IdentifierTuple 3 7 0 0]]
       = Some [[IdentifierTuple 0 1 0 1, IdentifierTuple 0 5 0 1, IdentifierTuple 3 7 0 0]]"
proof -
  let ?m = "newRenamingMap 1 0 exampleIntervals"
  let ?i = "[IdentifierTuple 0 5 0 1, IdentifierTuple 3 7 0 0]"
  have a: "Suc 1 < length (renamedIds ?m)" by (simp add: example_ids)
  have b: "renamedIds ?m ! 1 < ?i" by (simp add: example_ids less_tuple_iff)
  have c: "?i < renamedIds ?m ! Suc 1" by (simp add: example_ids less_tuple_iff)
  have d: "\<not> afterMinTuple (renamedIds ?m ! 1) ?i" by code_simp
  have e: "\<not> beforeMaxTuple (renamedIds ?m ! Suc 1) ?i" by code_simp
  have nr: "newRandom ?m = 0" by code_simp
  from rename_concurrent [OF example_wf refl example_asc a b c]
  have "initRenameSeq ?m [?i] = Some [[IdentifierTuple 0 1 0 1] @ ?i]"
    using d e nr by simp
  with example_wf example_asc [of 1 0] a b c show ?thesis by simp
qed

text \<open>
  An identifier of the first sentinel shape, as \<open>reverseRenameId\<close> of another epoch
  builds them: only its tail is appended to the renamed predecessor.
\<close>

theorem rename_concurrent_counterexample:
  "wellFormedIntervals exampleIntervals
   \<and> ascending (renamedIds (newRenamingMap 1 0 exampleIntervals))
   \<and> firstId (newRenamingMap 1 0 exampleIntervals)
       < [IdentifierTuple 0 5 0 0, MIN_TUPLE, IdentifierTuple (- 5) 3 0 0]
   \<and> [IdentifierTuple 0 5 0 0, MIN_TUPLE, IdentifierTuple (- 5) 3 0 0]
       < renamedIds (newRenamingMap 1 0 exampleIntervals) ! 1
   \<and> findPredecessor (renamedIds (newRenamingMap 1 0 exampleIntervals))
        [IdentifierTuple 0 5 0 0, MIN_TUPLE, IdentifierTuple (- 5) 3 0 0]
       = Some [IdentifierTuple 0 5 0 0]
   \<and> initRenameSeq (newRenamingMap 1 0 exampleIntervals) [[IdentifierTuple 0 5 0 0]]
       = Some [[IdentifierTuple 0 1 0 0]]
   \<and> initRenameSeq (newRenamingMap 1 0 exampleIntervals)
        [[IdentifierTuple 0 5 0 0, MIN_TUPLE, IdentifierTuple (- 5) 3 0 0]]
       = Some [[IdentifierTuple 0 1 0 0, IdentifierTuple (- 5) 3 0 0]]
   \<and> [IdentifierTuple 0 1 0 0, IdentifierTuple (- 5) 3 0 0]
       \<noteq> [IdentifierTuple 0 1 0 0]
           @ [IdentifierTuple 0 5 0 0, MIN_TUPLE, IdentifierTuple (- 5) 3 0 0]"
  by code_simp


section \<open>The extended map on renamed identifiers\<close>


lemma extHasBeenRenamed_eq:
  assumes "newExtendedRenamingMap rep clk ivs = Some e"
    and "m = newRenamingMap rep clk ivs" and "wellFormedIntervals ivs"
  shows "extHasBeenRenamed e i = hasBeenRenamed m i"
  using extended_fields [OF assms] by (simp add: extHasBeenRenamed_def hasBeenRenamed_def)


lemma ascending_in_range:
  assumes wf: "wellFormedMap m" and asc: "ascending (renamedIds m)"
    and k: "k < length (renamedIds m)"
  shows "firstId m \<le> renamedIds m ! k" and "renamedIds m ! k \<le> lastId m"
proof -
  let ?rs = "renamedIds m"
  have ne: "?rs \<noteq> []" by (rule renamedIds_nonempty [OF wf])
  show "firstId m \<le> ?rs ! k"
    using ascending_nth_less [OF asc, of 0 k] k ne
    by (cases "k = 0") (auto simp: firstId_hd [OF wf] hd_conv_nth)
  show "?rs ! k \<le> lastId m"
  proof (cases "k = length ?rs - 1")
    case True
    then show ?thesis using ne by (simp add: lastId_last [OF wf] last_conv_nth)
  next
    case False
    with k have "k < length ?rs - 1" by simp
    moreover have "length ?rs - 1 < length ?rs" using ne by simp
    ultimately have "?rs ! k < ?rs ! (length ?rs - 1)" by (rule ascending_nth_less [OF asc])
    then show ?thesis using ne by (simp add: lastId_last [OF wf] last_conv_nth)
  qed
qed

section \<open>The extended map on identifiers inserted between two renamed ones\<close>



lemma extReverseRenameId_concurrent:
  assumes ext: "newExtendedRenamingMap rep clk ivs = Some e"
    and m: "m = newRenamingMap rep clk ivs" and wfi: "wellFormedIntervals ivs"
    and j: "Suc j < length (renamedIds m)"
    and lo: "renamedIds m ! j < i" and hi: "i < renamedIds m ! Suc j"
    and inside: "firstId m < newFirstId m" "newLastId m < lastId m"
  shows "extReverseRenameId e (renameIdFromIndex m (int j) @ i) = Some i"
proof -
  let ?rs = "renamedIds m" and ?r = "renameIdFromIndex m (int j) @ i"
  from wfi have wf: "wellFormedMap m" unfolding m by (rule wellFormedMap_new)
  note f = extended_fields [OF ext m wfi]
  have ne: "extRenamedIds e \<noteq> []" using f(1) renamedIds_nonempty [OF wf] by simp
  have i_ne: "i \<noteq> []" using lo by auto
  have jm: "int j < maxOffset m" using j maxOffset_length [OF wf] by simp
  have nhr: "\<not> hasBeenRenamed m ?r"
    using i_ne equalsBase_length [of ?r "newFirstId m"]
    by (auto simp: hasBeenRenamed_def renameIdFromIndex_def newFirstId_def)
  have "newFirstId m < ?r"
    using i_ne by (cases "j = 0") (simp_all add: newFirstId_def renameIdFromIndex_def)
  with inside(1) have a: "\<not> ?r < firstId m" by simp
  have c: "?r < newLastId m"
    using jm by (simp add: newLastId_def renameIdFromIndex_def)
  with inside(2) have b: "\<not> lastId m < ?r" by simp
  have d: "\<not> newLastId m < ?r" using c by simp
  have h: "lastOffset (take 1 ?r) = int j" "drop 1 ?r = i"
    by (simp_all add: renameIdFromIndex_def createAtPosition_def lastOffset_def)
  have p: "newOffsetToOldIdMap e (int j) = Some (?rs ! j)"
    using extended_old [OF ext m wfi, of "int j"] jm by simp
  have s: "newOffsetToOldIdMap e (int j + 1) = Some (?rs ! Suc j)"
    using extended_old [OF ext m wfi, of "int j + 1"] jm by (simp add: nat_add_distrib)
  have np: "\<not> i < ?rs ! j" and ns: "\<not> ?rs ! Suc j < i" using lo hi by simp_all
  show ?thesis
    unfolding extReverseRenameId_def
    using ne nhr a b d h p s np ns
    by (simp add: extHasBeenRenamed_eq [OF ext m wfi] f)
qed

lemma between_index:
  assumes wf: "wellFormedMap m" and lo: "firstId m \<le> i" and hi: "i \<le> lastId m"
    and nin: "i \<notin> set (renamedIds m)"
  shows "\<exists>j. Suc j < length (renamedIds m) \<and> renamedIds m ! j < i \<and> i < renamedIds m ! Suc j"
proof -
  let ?rs = "renamedIds m"
  let ?j = "advanceIndex ?rs i (- 1)"
  have ne: "?rs \<noteq> []" by (rule renamedIds_nonempty [OF wf])
  have "\<not> i < ?rs ! 0" using lo ne by (simp add: firstId_hd [OF wf] hd_conv_nth)
  then have "?j \<noteq> - 1" using ne by (simp add: advanceIndex_first)
  moreover have b: "- 1 \<le> ?j" "?j \<le> int (length ?rs) - 1"
    using advanceIndex_bounds [of "- 1" ?rs i] by simp_all
  ultimately have j0: "0 \<le> ?j" by simp
  have "?rs ! nat ?j \<le> i"
    using advanceIndex_passed [of "- 1" ?j ?rs i] j0 by simp
  moreover have "?rs ! nat ?j \<in> set ?rs" using j0 b ne by (intro nth_mem) (cases ?rs, auto)
  ultimately have pred: "?rs ! nat ?j < i" using nin by (cases "?rs ! nat ?j = i") auto
  have "?j \<noteq> int (length ?rs) - 1"
  proof
    assume "?j = int (length ?rs) - 1"
    with ne have "?rs ! nat ?j = last ?rs"
      by (simp add: last_conv_nth nat_diff_distrib')
    with pred hi show False by (simp add: lastId_last [OF wf])
  qed
  with b have jn: "?j < int (length ?rs) - 1" by simp
  from advanceIndex_stop [OF jn] have "i < ?rs ! nat (?j + 1)" .
  with pred jn j0 have "Suc (nat ?j) < length ?rs \<and> ?rs ! nat ?j < i \<and> i < ?rs ! Suc (nat ?j)"
    by (simp add: nat_add_distrib)
  then show ?thesis by blast
qed


text \<open>
  Claim C1 (rename round trip). For every identifier between \<open>firstId\<close> and \<open>lastId\<close>,
  \<open>reverseRenameId\<close> of the renamed identifier is the identifier, for the renaming map
  and likewise for the extended renaming map. The renaming map has the property
  (\<open>roundtrip_wellFormed\<close>). The extended map has not: replica 1 renames a sequence
  that starts at \<open>[(0,5,0,0)]\<close>, so that \<open>newFirstId = [(0,1,0,0)]\<close> lies below
  \<open>firstId\<close>; the identifier \<open>[(0,5,0,0), (3,7,0,0)]\<close>, inserted after the first element,
  is renamed to \<open>[(0,1,0,0), (0,5,0,0), (3,7,0,0)]\<close>, which lies below \<open>firstId\<close> and
  which \<open>ExtendedRenamingMap.reverseRenameId\<close> returns unchanged, in the branch it
  comments \<open>id < firstId < newFirstId\<close>. The renaming map gives the identifier back.
\<close>

theorem extended_roundtrip_fails:
  "firstId (newRenamingMap 1 0 exampleIntervals)
       \<le> [IdentifierTuple 0 5 0 0, IdentifierTuple 3 7 0 0]
   \<and> [IdentifierTuple 0 5 0 0, IdentifierTuple 3 7 0 0]
       \<le> lastId (newRenamingMap 1 0 exampleIntervals)
   \<and> newFirstId (newRenamingMap 1 0 exampleIntervals)
       < firstId (newRenamingMap 1 0 exampleIntervals)
   \<and> Option.bind (newExtendedRenamingMap 1 0 exampleIntervals)
        (\<lambda>e. extRenameId e [IdentifierTuple 0 5 0 0, IdentifierTuple 3 7 0 0])
       = Some [IdentifierTuple 0 1 0 0, IdentifierTuple 0 5 0 0, IdentifierTuple 3 7 0 0]
   \<and> Option.bind (newExtendedRenamingMap 1 0 exampleIntervals)
        (\<lambda>e. extReverseRenameId e
               [IdentifierTuple 0 1 0 0, IdentifierTuple 0 5 0 0, IdentifierTuple 3 7 0 0])
       = Some [IdentifierTuple 0 1 0 0, IdentifierTuple 0 5 0 0, IdentifierTuple 3 7 0 0]
   \<and> initRenameSeq (newRenamingMap 1 0 exampleIntervals)
        [[IdentifierTuple 0 5 0 0, IdentifierTuple 3 7 0 0]]
       = Some [[IdentifierTuple 0 1 0 0, IdentifierTuple 0 5 0 0, IdentifierTuple 3 7 0 0]]
   \<and> reverseRenameId (newRenamingMap 1 0 exampleIntervals)
        [IdentifierTuple 0 1 0 0, IdentifierTuple 0 5 0 0, IdentifierTuple 3 7 0 0]
       = Some [IdentifierTuple 0 5 0 0, IdentifierTuple 3 7 0 0]"
  by code_simp


section \<open>Where the two implementations agree\<close>

lemma rename_between_ascending:
  assumes wf: "wellFormedMap m" and asc: "ascending (renamedIds m)"
    and j: "Suc j < length (renamedIds m)"
    and lo: "renamedIds m ! j < i" and hi: "i < renamedIds m ! Suc j"
  shows "initRenameSeq m [i] =
           Some [renameIdFromIndex m (int j) @
                 (if afterMinTuple (renamedIds m ! j) i
                  then getTail i (length (renamedIds m ! j) + 1)
                  else if beforeMaxTuple (renamedIds m ! Suc j) i
                  then getTail i (length (renamedIds m ! Suc j) + 1)
                  else i)]"
proof -
  let ?rs = "renamedIds m"
  have adv: "advanceIndex ?rs i (- 1) = int j"
    using j lo hi by (intro advanceIndex_unique [OF asc]) (simp_all add: nat_add_distrib)
  have jm: "int j < maxOffset m" using j maxOffset_length [OF wf] by simp
  have "initRenameSeq m [i] =
          map_option (\<lambda>r. [r]) (renameIdFromPredecessorId m i (?rs ! nat (int j)) (int j))"
    using j lo by (intro rename_between [OF wf adv]) simp_all
  then show ?thesis
    using renameIdFromPredecessorId_cases [OF wf _ jm, of i]
    by (simp add: nat_add_distrib)
qed








section \<open>Renaming plain identifiers\<close>

lemma plain_not_sentinelAfter:
  "plainId i \<Longrightarrow> \<not> sentinelAfter p MIN_TUPLE i \<and> \<not> sentinelAfter p MAX_TUPLE i"
proof -
  assume p: "plainId i"
  have "MIN_TUPLE < i ! k \<and> i ! k < MAX_TUPLE" if "k < length i" for k
    using p that by (simp add: plainId_def list_all_length)
  then have "i ! length p \<noteq> MIN_TUPLE \<and> i ! length p \<noteq> MAX_TUPLE"
    if "length p + 1 < length i"
    using that by (metis add_lessD1 less_irrefl)
  then show ?thesis by (auto simp: sentinelAfter_def)
qed

lemma plain_not_shapes:
  "plainId i \<Longrightarrow> \<not> afterMinTuple p i \<and> \<not> beforeMaxTuple s i"
proof -
  assume p: "plainId i"
  have *: "MIN_TUPLE < i ! k \<and> i ! k < MAX_TUPLE" if "k < length i" for k
    using p that by (simp add: plainId_def list_all_length)
  have "\<not> afterMinTuple p i"
    using * [of "length p"] by (auto simp: afterMinTuple_def)
  moreover have "\<not> beforeMaxTuple s i"
    using * [of "length s"] by (auto simp: beforeMaxTuple_def)
  ultimately show ?thesis by simp
qed

lemma fresh_below:
  assumes f: "freshFor m i" and ne: "i \<noteq> []" and lt: "i < newFirstId m"
  shows "i < fromBase (newFirstId m) (lastOffset (newFirstId m) - 1)"
proof -
  obtain t ts where i: "i = t # ts" using ne by (cases i) auto
  from lt i have "t < IdentifierTuple (newRandom m) (mapReplicaNumber m) (mapClock m) 0"
    by (simp add: newFirstId_def createAtPosition_def)
  moreover from f i have "\<not> (random t = newRandom m \<and> replicaNumber t = mapReplicaNumber m
      \<and> clock t = mapClock m)"
    by (simp add: freshFor_def equalsBase_tuple_def newFirstId_def createAtPosition_def)
  ultimately have "t < IdentifierTuple (newRandom m) (mapReplicaNumber m) (mapClock m) (- 1)"
    by (cases t) (auto simp: less_tuple_iff)
  then show ?thesis by (simp add: i newFirstId_def createAtPosition_def fromBase_def
        fromBase_tuple_def lastOffset_def)
qed

lemma fresh_above:
  assumes f: "freshFor m i" and gt: "newLastId m < i"
  shows "newLastId m @ x < i" and "fromBase (newLastId m) (lastOffset (newLastId m) + 1) < i"
proof -
  from gt obtain t ts where i: "i = t # ts" by (cases i) auto
  from gt i have "IdentifierTuple (newRandom m) (mapReplicaNumber m) (mapClock m) (maxOffset m) \<le> t"
    by (auto simp: newLastId_def createAtPosition_def)
  moreover from f i have nb: "\<not> (random t = newRandom m \<and> replicaNumber t = mapReplicaNumber m
      \<and> clock t = mapClock m)"
    by (simp add: freshFor_def equalsBase_tuple_def newFirstId_def createAtPosition_def)
  ultimately have "IdentifierTuple (newRandom m) (mapReplicaNumber m) (mapClock m) k < t" for k
    by (cases t) (auto simp: less_tuple_iff le_less)
  then show "newLastId m @ x < i"
    and "fromBase (newLastId m) (lastOffset (newLastId m) + 1) < i"
    by (simp_all add: i newLastId_def createAtPosition_def fromBase_def
        fromBase_tuple_def lastOffset_def)
qed

lemma newFirstId_le_newLastId: "wellFormedMap m \<Longrightarrow> newFirstId m \<le> newLastId m"
  using maxOffset_nonneg [of m]
  by (simp add: newFirstId_def newLastId_def not_less [symmetric])

lemma firstId_le_lastId:
  "wellFormedMap m \<Longrightarrow> ascending (renamedIds m) \<Longrightarrow> firstId m \<le> lastId m"
proof -
  assume wf: "wellFormedMap m" and asc: "ascending (renamedIds m)"
  have "0 < length (renamedIds m)" using renamedIds_nonempty [OF wf] by simp
  from ascending_in_range(2) [OF wf asc this] renamedIds_nonempty [OF wf]
  show ?thesis by (simp add: firstId_hd [OF wf] hd_conv_nth)
qed

subsection \<open>Below the renamed range\<close>

lemma rename_zone_below:
  assumes wf: "wellFormedMap m" and lt: "i < firstId m" and p: "plainId i"
  shows "initRenameSeq m [i] =
     Some [if i < newFirstId m then i
           else fromBase (newFirstId m) (lastOffset (newFirstId m) - 1) @ i]"
  using rename_below [OF wf lt]
    plain_not_sentinelAfter [OF p, of "fromBase (firstId m) (lastOffset (firstId m) - 1)"]
  by (auto simp: renameIdLessThanFirstId_def sentinelAfter_def Let_def concat_id_def)

lemma reverse_below_unchanged:
  assumes wf: "wellFormedMap m" and f: "freshFor m i" and ne: "i \<noteq> []"
    and lt: "i < firstId m" "i < newFirstId m"
  shows "reverseRenameId m i = Some i"
proof -
  have "i < minFirstId m"
    using fresh_below [OF f ne lt(2)] lt(1) by (simp add: minFirstId_def)
  then show ?thesis by (intro reverseRenameId_outside [OF wf]) simp
qed

lemma reverse_below_prefixed:
  assumes wf: "wellFormedMap m" and ne: "i \<noteq> []"
    and lt: "i < firstId m" and ge: "newFirstId m \<le> i"
  shows "reverseRenameId m (fromBase (newFirstId m) (lastOffset (newFirstId m) - 1) @ i)
         = Some i"
proof -
  let ?c = "fromBase (newFirstId m) (lastOffset (newFirstId m) - 1)"
  let ?r = "?c @ i"
  obtain t ts where i: "i = t # ts" using ne by (cases i) auto
  have nhr: "\<not> hasBeenRenamed m ?r"
    using ne equalsBase_length [of ?r "newFirstId m"]
    by (auto simp: hasBeenRenamed_def newFirstId_def)
  have c_lt: "?c < newFirstId m" by (simp add: newFirstId_def)
  then have "?c < firstId m" using ge lt by simp
  then have a: "\<not> firstId m < ?c" by simp
  have b: "\<not> ?r < ?c" by simp
  have r_lt: "?r < newFirstId m" by (simp add: newFirstId_def)
  with newFirstId_le_newLastId [OF wf] have r_last: "?r < newLastId m" by simp
  have d: "\<not> lastId m < ?r" if "newLastId m < lastId m" using r_last that by simp
  have e: "\<not> fromBase (newLastId m) (lastOffset (newLastId m) + 1) < ?r"
    using maxOffset_nonneg [OF wf] by (simp add: newLastId_def newFirstId_def)
  have tl: "getTail ?r 1 = i" by (simp add: newFirstId_def createAtPosition_def getTail_def)
  have "newRandom m \<le> random t"
    using ge by (cases t) (auto simp: i newFirstId_def createAtPosition_def less_tuple_iff le_less)
  moreover have "random t \<le> newRandom m"
  proof -
    from wf have "firstId m \<noteq> []"
      using renamedIds_wf [OF wf, of "firstId m"] renamedIds_nonempty [OF wf]
      by (simp add: firstId_hd [OF wf])
    then obtain u us where fi: "firstId m = u # us" by (cases "firstId m") auto
    with lt i have "t \<le> u" by auto
    then show ?thesis using fi
      by (cases t; cases u) (auto simp: newRandom_def less_tuple_iff le_less)
  qed
  ultimately have rnd: "random (hd i) = newRandom m" using i by simp
  show ?thesis
    unfolding reverseRenameId_def Let_def
    using wf_nonempty [OF wf] nhr a b d e r_lt tl rnd ne
    by (simp del: append_assoc)
qed

subsection \<open>Above the renamed range\<close>

lemma rename_zone_above:
  assumes wf: "wellFormedMap m" and asc: "ascending (renamedIds m)"
    and gt: "lastId m < i" and p: "plainId i"
  shows "initRenameSeq m [i] = Some [if newLastId m < i then i else newLastId m @ i]"
  using rename_above_last [OF wf asc gt] plain_not_sentinelAfter [OF p, of "lastId m"]
  by (auto simp: renameIdGreaterThanLastId_def sentinelAfter_def concat_id_def)

lemma reverse_above_unchanged:
  assumes wf: "wellFormedMap m" and f: "freshFor m i"
    and gt: "lastId m < i" "newLastId m < i"
  shows "reverseRenameId m i = Some i"
proof -
  have "maxLastId m < i"
    using fresh_above(2) [OF f gt(2)] gt(1) by (simp add: maxLastId_def)
  then show ?thesis by (intro reverseRenameId_outside [OF wf]) simp
qed

lemma reverse_above_prefixed:
  assumes wf: "wellFormedMap m" and asc: "ascending (renamedIds m)" and f: "freshFor m i"
    and gt: "lastId m < i" and le: "i \<le> newLastId m"
  shows "reverseRenameId m (newLastId m @ i) = Some i"
proof -
  let ?r = "newLastId m @ i"
  let ?c = "fromBase (newFirstId m) (lastOffset (newFirstId m) - 1)"
  let ?s = "fromBase (newLastId m) (lastOffset (newLastId m) + 1)"
  from gt have ne: "i \<noteq> []" by auto
  have "i \<noteq> newLastId m"
    using f by (auto simp: freshFor_def newLastId_def newFirstId_def createAtPosition_def
        equalsBase_tuple_def)
  with le have lt: "i < newLastId m" by simp
  with gt have ll: "lastId m < newLastId m" by simp
  have nhr: "\<not> hasBeenRenamed m ?r"
    using ne equalsBase_length [of ?r "newFirstId m"]
    by (auto simp: hasBeenRenamed_def newFirstId_def newLastId_def)
  have r_gt: "newLastId m < ?r" using ne by simp
  have "?c < newFirstId m" by (simp add: newFirstId_def)
  with newFirstId_le_newLastId [OF wf] have "?c < newLastId m" by simp
  then have c_lt: "?c < ?r" using r_gt by (rule less_trans)
  have "firstId m < newLastId m" using firstId_le_lastId [OF wf asc] ll by simp
  then have "firstId m < ?r" using r_gt by (rule less_trans)
  then have a: "\<not> ?r < firstId m" by simp
  have b: "\<not> ?r < ?c" using c_lt by simp
  have d: "\<not> newLastId m < lastId m" using ll by simp
  have e: "?r < ?s" by (simp add: newLastId_def)
  then have e': "\<not> ?s < ?r" by simp
  have "newFirstId m < ?r" using newFirstId_le_newLastId [OF wf] r_gt by (rule le_less_trans)
  then have g: "\<not> ?r < newFirstId m" by simp
  have tl: "getTail ?r 1 = i" by (simp add: newLastId_def createAtPosition_def getTail_def)
  have h: "\<not> i < lastId m" using gt by simp
  show ?thesis
    unfolding reverseRenameId_def Let_def
    using wf_nonempty [OF wf] nhr a b d e e' g r_gt ll tl h gt lt
    by (simp del: append_assoc)
qed

subsection \<open>Inside the renamed range\<close>

lemma rename_zone_inside:
  assumes wf: "wellFormedMap m" and asc: "ascending (renamedIds m)"
    and lo: "firstId m \<le> i" and hi: "i \<le> lastId m" and p: "plainId i"
  obtains (renamed) j where "j < length (renamedIds m)" and "i = renamedIds m ! j"
      and "initRenameSeq m [i] = Some [renameIdFromIndex m (int j)]"
    | (between) j where "Suc j < length (renamedIds m)"
      and "renamedIds m ! j < i" and "i < renamedIds m ! Suc j"
      and "initRenameSeq m [i] = Some [renameIdFromIndex m (int j) @ i]"
proof (cases "i \<in> set (renamedIds m)")
  case True
  then obtain j where j: "j < length (renamedIds m)" and i: "i = renamedIds m ! j"
    by (auto simp: in_set_conv_nth)
  from rename_nth [OF wf asc j] i j show ?thesis by (intro renamed [of j]) simp_all
next
  case False
  from between_index [OF wf lo hi False] obtain j where
    j: "Suc j < length (renamedIds m)" "renamedIds m ! j < i" "i < renamedIds m ! Suc j"
    by blast
  from rename_between_ascending [OF wf asc j] plain_not_shapes [OF p]
  have "initRenameSeq m [i] = Some [renameIdFromIndex m (int j) @ i]" by simp
  with j show ?thesis by (intro between [of j]) simp_all
qed

lemma reverse_between:
  assumes wf: "wellFormedMap m"
    and j: "Suc j < length (renamedIds m)"
    and lo: "renamedIds m ! j < i" and hi: "i < renamedIds m ! Suc j"
  shows "reverseRenameId m (renameIdFromIndex m (int j) @ i) = Some i"
proof -
  have jm: "int j < maxOffset m" using j maxOffset_length [OF wf] by simp
  have ne: "i \<noteq> []" using lo by auto
  have np: "\<not> i < renamedIds m ! j" and ns: "\<not> renamedIds m ! Suc j < i"
    using lo hi by simp_all
  from reverseRenameId_inside [OF wf _ jm ne] np ns show ?thesis
    by (simp add: nat_add_distrib)
qed

text \<open>Every plain identifier that does not start with a tuple of the renaming is
  renamed, and \<open>reverseRenameId\<close> gives it back.\<close>

lemma rename_plain_roundtrip:
  assumes wf: "wellFormedMap m" and asc: "ascending (renamedIds m)"
    and p: "plainId i" and f: "freshFor m i"
  shows "\<exists>r. initRenameSeq m [i] = Some [r] \<and> reverseRenameId m r = Some i"
proof -
  from p have ne: "i \<noteq> []" by (simp add: plainId_def)
  consider (below) "i < firstId m" | (inside) "firstId m \<le> i" "i \<le> lastId m"
    | (above) "lastId m < i"
    by (cases "i < firstId m"; cases "lastId m < i") (auto simp: not_less)
  then show ?thesis
  proof cases
    case below
    show ?thesis
    proof (cases "i < newFirstId m")
      case True
      with rename_zone_below [OF wf below p] reverse_below_unchanged [OF wf f ne below]
      show ?thesis by simp
    next
      case False
      then have "newFirstId m \<le> i" by simp
      from reverse_below_prefixed [OF wf ne below this] rename_zone_below [OF wf below p] False
      show ?thesis by simp
    qed
  next
    case inside
    then show ?thesis by (rule roundtrip_wellFormed [OF wf])
  next
    case above
    show ?thesis
    proof (cases "newLastId m < i")
      case True
      with rename_zone_above [OF wf asc above p] reverse_above_unchanged [OF wf f above]
      show ?thesis by simp
    next
      case False
      then have "i \<le> newLastId m" by simp
      from reverse_above_prefixed [OF wf asc f above this]
        rename_zone_above [OF wf asc above p] False
      show ?thesis by simp
    qed
  qed
qed

subsection \<open>The order of the renamed identifiers\<close>

lemma createAtPosition_append_less [simp]:
  "(createAtPosition rep clk rnd a @ x < createAtPosition rep clk rnd b @ y) =
     (a < b \<or> a = b \<and> x < y)"
  by (auto simp: createAtPosition_def less_tuple_iff)

lemma renamed_below_bound:
  assumes wf: "wellFormedMap m" and lt: "i < firstId m" and p: "plainId i"
    and r: "initRenameSeq m [i] = Some [r]"
  shows "r < newFirstId m"
  using rename_zone_below [OF wf lt p] r
  by (cases "i < newFirstId m") (auto simp: newFirstId_def)

lemma renamed_above_bound:
  assumes wf: "wellFormedMap m" and asc: "ascending (renamedIds m)"
    and gt: "lastId m < i" and p: "plainId i"
    and r: "initRenameSeq m [i] = Some [r]"
  shows "newLastId m < r"
proof -
  from gt have "i \<noteq> []" by auto
  then show ?thesis
    using rename_zone_above [OF wf asc gt p] r by (cases "newLastId m < i") auto
qed

lemma renamed_inside_bound:
  assumes wf: "wellFormedMap m" and asc: "ascending (renamedIds m)"
    and lo: "firstId m \<le> i" and hi: "i \<le> lastId m" and p: "plainId i"
    and r: "initRenameSeq m [i] = Some [r]"
  shows "newFirstId m \<le> r \<and> r \<le> newLastId m"
proof -
  have mx: "maxOffset m = int (length (renamedIds m)) - 1" by (rule maxOffset_length [OF wf])
  from wf asc lo hi p show ?thesis
  proof (cases rule: rename_zone_inside)
    case (renamed j)
    with r mx show ?thesis
      by (auto simp: renameIdFromIndex_def newFirstId_def newLastId_def not_less [symmetric])
  next
    case (between j)
    then have "i \<noteq> []" by auto
    with between r mx show ?thesis
      by (auto simp: renameIdFromIndex_def newFirstId_def newLastId_def not_less [symmetric]
          le_less)
  qed
qed

lemma rename_plain_mono:
  assumes wf: "wellFormedMap m" and asc: "ascending (renamedIds m)"
    and pa: "plainId a" and pb: "plainId b" and fa: "freshFor m a" and fb: "freshFor m b"
    and ab: "a < b"
    and ra: "initRenameSeq m [a] = Some [a']" and rb: "initRenameSeq m [b] = Some [b']"
  shows "a' < b'"
proof -
  let ?rs = "renamedIds m"
  from pa pb have ne: "a \<noteq> []" "b \<noteq> []" by (simp_all add: plainId_def)
  note fl = newFirstId_le_newLastId [OF wf]
  consider (below) "b < firstId m"
    | (below_inside) "a < firstId m" "firstId m \<le> b" "b \<le> lastId m"
    | (below_above) "a < firstId m" "lastId m < b"
    | (inside) "firstId m \<le> a" "b \<le> lastId m"
    | (inside_above) "firstId m \<le> a" "a \<le> lastId m" "lastId m < b"
    | (above) "lastId m < a"
    by (cases "a < firstId m"; cases "b < firstId m"; cases "lastId m < a"; cases "lastId m < b")
      (auto simp: not_less)
  then show ?thesis
  proof cases
    case below
    with ab have a_lt: "a < firstId m" by simp
    note za = rename_zone_below [OF wf a_lt pa] and zb = rename_zone_below [OF wf below pb]
    show ?thesis
    proof (cases "b < newFirstId m")
      case True
      with ab have "a < newFirstId m" by simp
      with za zb True ra rb ab show ?thesis by simp
    next
      case b_ge: False
      show ?thesis
      proof (cases "a < newFirstId m")
        case True
        from fresh_below [OF fa ne(1) True]
        have "a < fromBase (newFirstId m) (lastOffset (newFirstId m) - 1)" .
        also have "\<dots> < fromBase (newFirstId m) (lastOffset (newFirstId m) - 1) @ b"
          using ne(2) by simp
        finally show ?thesis using za zb True b_ge ra rb by simp
      next
        case False
        with za zb b_ge ra rb ab show ?thesis by simp
      qed
    qed
  next
    case below_inside
    from renamed_below_bound [OF wf below_inside(1) pa ra]
      renamed_inside_bound [OF wf asc below_inside(2,3) pb rb]
    show ?thesis by (meson less_le_trans)
  next
    case below_above
    from renamed_below_bound [OF wf below_above(1) pa ra]
      renamed_above_bound [OF wf asc below_above(2) pb rb] fl
    show ?thesis by (meson less_le_trans less_trans)
  next
    case inside
    with ab have a_hi: "a \<le> lastId m" and b_lo: "firstId m \<le> b" by simp_all
    have order: "ja < jb \<or> ja = jb \<and> xa < xb \<Longrightarrow>
        a' = renameIdFromIndex m (int ja) @ xa \<Longrightarrow> b' = renameIdFromIndex m (int jb) @ xb \<Longrightarrow>
        a' < b'" for ja jb xa xb
      by (auto simp: renameIdFromIndex_def)
    from wf asc inside(1) a_hi pa show ?thesis
    proof (cases rule: rename_zone_inside)
      case ra_renamed: (renamed ja)
      have a': "a' = renameIdFromIndex m (int ja) @ []" using ra_renamed(3) ra by simp
      from wf asc b_lo inside(2) pb show ?thesis
      proof (cases rule: rename_zone_inside)
        case (renamed jb)
        have b': "b' = renameIdFromIndex m (int jb) @ []" using renamed(3) rb by simp
        have "ja < jb"
        proof (rule ccontr)
          assume "\<not> ja < jb"
          then have "jb = ja \<or> jb < ja" by auto
          then have "?rs ! jb \<le> ?rs ! ja"
            using ascending_nth_less [OF asc, of jb ja] ra_renamed(1) by auto
          with ab ra_renamed(2) renamed(2) show False by simp
        qed
        then show ?thesis by (intro order [OF _ a' b']) simp
      next
        case (between jb)
        have b': "b' = renameIdFromIndex m (int jb) @ b" using between(4) rb by simp
        have "ja \<le> jb"
        proof (rule ccontr)
          assume "\<not> ja \<le> jb"
          then have "Suc jb = ja \<or> Suc jb < ja" by auto
          then have "?rs ! Suc jb \<le> ?rs ! ja"
            using ascending_nth_less [OF asc, of "Suc jb" ja] ra_renamed(1) by auto
          with ab ra_renamed(2) between(3) show False by simp
        qed
        then show ?thesis using ne(2) by (intro order [OF _ a' b']) (cases b, auto)
      qed
    next
      case ra_between: (between ja)
      have a': "a' = renameIdFromIndex m (int ja) @ a" using ra_between(4) ra by simp
      from wf asc b_lo inside(2) pb show ?thesis
      proof (cases rule: rename_zone_inside)
        case (renamed jb)
        have b': "b' = renameIdFromIndex m (int jb) @ []" using renamed(3) rb by simp
        have "ja < jb"
        proof (rule ccontr)
          assume "\<not> ja < jb"
          then have "jb = ja \<or> jb < ja" by auto
          then have "?rs ! jb \<le> ?rs ! ja"
            using ascending_nth_less [OF asc, of jb ja] ra_between(1) by auto
          with ab ra_between(2) renamed(2) show False by simp
        qed
        then show ?thesis by (intro order [OF _ a' b']) simp
      next
        case (between jb)
        have b': "b' = renameIdFromIndex m (int jb) @ b" using between(4) rb by simp
        have "ja \<le> jb"
        proof (rule ccontr)
          assume "\<not> ja \<le> jb"
          then have "Suc jb = ja \<or> Suc jb < ja" by auto
          then have "?rs ! Suc jb \<le> ?rs ! ja"
            using ascending_nth_less [OF asc, of "Suc jb" ja] ra_between(1) by auto
          with ab ra_between(2) between(3) show False by simp
        qed
        then show ?thesis using ab by (intro order [OF _ a' b']) auto
      qed
    qed
  next
    case inside_above
    from renamed_inside_bound [OF wf asc inside_above(1,2) pa ra]
      renamed_above_bound [OF wf asc inside_above(3) pb rb]
    show ?thesis by (meson le_less_trans)
  next
    case above
    with ab have b_gt: "lastId m < b" by simp
    note za = rename_zone_above [OF wf asc above pa]
      and zb = rename_zone_above [OF wf asc b_gt pb]
    show ?thesis
    proof (cases "newLastId m < a")
      case True
      with ab have "newLastId m < b" by simp
      with za zb True ra rb ab show ?thesis by simp
    next
      case a_le: False
      show ?thesis
      proof (cases "newLastId m < b")
        case True
        from fresh_above(1) [OF fb True, of a] za zb True a_le ra rb show ?thesis by simp
      next
        case False
        with za zb a_le ra rb ab show ?thesis by simp
      qed
    qed
  qed
qed


text \<open>
  Identifiers free of sentinels keep their order. For a map built by the constructor from
  well-formed intervals whose renamed identifiers are ascending, and two identifiers \<open>a\<close>
  and \<open>b\<close> whose tuples lie strictly between \<open>MIN_TUPLE\<close> and \<open>MAX_TUPLE\<close> and that do
  not start with a tuple of the renaming itself: \<open>renameIds\<close> returns an image \<open>a'\<close> of
  \<open>a\<close> and \<open>b'\<close> of \<open>b\<close>, \<open>reverseRenameId\<close> maps them back, and \<open>a < b\<close> exactly when
  \<open>a' < b'\<close>.
\<close>

lemma rename_plain_order:
  assumes "wellFormedIntervals ivs" and "m = newRenamingMap rep clk ivs"
    and "ascending (renamedIds m)"
    and "plainId a" and "plainId b" and "freshFor m a" and "freshFor m b"
  shows "\<exists>a' b'. initRenameSeq m [a] = Some [a'] \<and> initRenameSeq m [b] = Some [b']
         \<and> reverseRenameId m a' = Some a \<and> reverseRenameId m b' = Some b
         \<and> ((a < b) = (a' < b'))"
proof -
  from assms(1) have wf: "wellFormedMap m" unfolding assms(2) by (rule wellFormedMap_new)
  from rename_plain_roundtrip [OF wf assms(3,4,6)]
  obtain a' where ra: "initRenameSeq m [a] = Some [a']" and va: "reverseRenameId m a' = Some a"
    by blast
  from rename_plain_roundtrip [OF wf assms(3,5,7)]
  obtain b' where rb: "initRenameSeq m [b] = Some [b']" and vb: "reverseRenameId m b' = Some b"
    by blast
  have up: "a < b \<Longrightarrow> a' < b'"
    by (rule rename_plain_mono [OF wf assms(3,4,5,6,7) _ ra rb])
  have down: "b < a \<Longrightarrow> b' < a'"
    by (rule rename_plain_mono [OF wf assms(3,5,4,7,6) _ rb ra])
  have same: "a = b \<Longrightarrow> a' = b'" using ra rb by simp
  have "(a < b) = (a' < b')"
  proof
    assume "a < b" then show "a' < b'" by (rule up)
  next
    assume lt: "a' < b'"
    show "a < b"
    proof (rule ccontr)
      assume "\<not> a < b"
      then have "a = b \<or> b < a" by auto
      with same down lt show False by auto
    qed
  qed
  with ra rb va vb show ?thesis by blast
qed

text \<open>
  Claim C3 (rename preserves order): for all identifiers \<open>a < b\<close>,
  \<open>rename a < rename b\<close>. The branch of \<open>renameIdGreaterThanLastId\<close> that undoes
  \<open>lastId + MIN_TUPLE + tail\<close> breaks it. Replica 2 has renamed the whole sequence
  \<open>[(5,4,0,0)], [(30,8,0,0)]\<close>; its \<open>reverseRenameId\<close> maps \<open>[(7,1,200,0)]\<close>, which lies
  between its \<open>newLastId\<close> and \<open>lastId\<close>, to
  \<open>X = [(30,8,0,0), MIN_TUPLE, (7,1,200,0)]\<close>. Replica 5 has renamed the last element
  \<open>Q = [(30,8,0,0)]\<close> alone. \<open>Q < X\<close>, and the map of replica 5 renames \<open>Q\<close> to
  \<open>[(30,5,100,0)]\<close> and \<open>X\<close> to the bare tail \<open>[(7,1,200,0)]\<close>, which lies below it:
  the branch does not compare the tail with \<open>newLastId\<close>.
\<close>

theorem rename_reverses_order:
  "reverseRenameId (newRenamingMap 2 50 wholeIntervals) [IdentifierTuple 7 1 200 0]
       = Some [IdentifierTuple 30 8 0 0, MIN_TUPLE, IdentifierTuple 7 1 200 0]
   \<and> lastId (newRenamingMap 5 100 lastIntervals) = [IdentifierTuple 30 8 0 0]
   \<and> newLastId (newRenamingMap 5 100 lastIntervals) = [IdentifierTuple 30 5 100 0]
   \<and> [IdentifierTuple 30 8 0 0]
       < [IdentifierTuple 30 8 0 0, MIN_TUPLE, IdentifierTuple 7 1 200 0]
   \<and> initRenameSeq (newRenamingMap 5 100 lastIntervals) [[IdentifierTuple 30 8 0 0]]
       = Some [[IdentifierTuple 30 5 100 0]]
   \<and> initRenameSeq (newRenamingMap 5 100 lastIntervals)
        [[IdentifierTuple 30 8 0 0, MIN_TUPLE, IdentifierTuple 7 1 200 0]]
       = Some [[IdentifierTuple 7 1 200 0]]
   \<and> initRenameSeq (newRenamingMap 5 100 lastIntervals)
        [[IdentifierTuple 30 8 0 0],
         [IdentifierTuple 30 8 0 0, MIN_TUPLE, IdentifierTuple 7 1 200 0]]
       = Some [[IdentifierTuple 30 5 100 0], [IdentifierTuple 7 1 200 0]]
   \<and> [IdentifierTuple 7 1 200 0] < [IdentifierTuple 30 5 100 0]"
  by code_simp

end
